theory Spec2Isabelle
  imports Complex_Main
begin

section \<open>JavaScript values\<close>

text \<open>
  A JavaScript number is \<open>NaN\<close>, an infinity or a finite double. Every finite double is a
  rational number, and the code below only converts numbers to 32-bit integers, which is
  exact, so finite numbers are modelled by \<^typ>\<open>rat\<close> (negative zero is \<open>Fin 0\<close>: it
  behaves like zero everywhere below).
\<close>

datatype jsnum = NaN | PosInfinity | NegInfinity | Fin rat

type_synonym ref = nat

text \<open>
  Function objects, by identity. \<open>Plain n\<close> is a function of the application. \<open>Shim t pos cb\<close>
  is the closure that \<open>wrap\<close> builds at argument position \<open>pos\<close> during the call that created
  the trace error \<open>t\<close>; its \<open>__original_callback__\<close> property is \<open>cb\<close>. Every call of a
  wrapped function creates a fresh trace error, so \<open>(t, pos)\<close> identifies the closure.
\<close>

datatype fn = Plain nat | Shim ref nat fn

text \<open>
  Values. \<open>Err r\<close> is the error object at address \<open>r\<close> of the heap of error objects below;
  \<open>Obj n\<close> is any other object (an emitter, a timer handle, a promise).
\<close>

datatype jsval =
    Undefined
  | Null
  | Bool bool
  | Num jsnum
  | Str string
  | Err ref
  | Obj nat
  | Func fn

datatype error = TypeError string

fun truthy :: "jsval \<Rightarrow> bool" where
  "truthy Undefined = False"
| "truthy Null = False"
| "truthy (Bool b) = b"
| "truthy (Num NaN) = False"
| "truthy (Num (Fin q)) = (q \<noteq> 0)"
| "truthy (Num _) = True"
| "truthy (Str s) = (s \<noteq> [])"
| "truthy (Err _) = True"
| "truthy (Obj _) = True"
| "truthy (Func _) = True"

fun is_number :: "jsval \<Rightarrow> bool" where
  "is_number (Num _) = True"
| "is_number _ = False"

fun is_function :: "jsval \<Rightarrow> bool" where
  "is_function (Func _) = True"
| "is_function _ = False"

text \<open>\<open>~~x\<close> on a number: truncate towards zero, then wrap into the signed 32-bit range.\<close>

definition trunc_rat :: "rat \<Rightarrow> int" where
  "trunc_rat q = (if 0 \<le> q then \<lfloor>q\<rfloor> else \<lceil>q\<rceil>)"

fun ToInt32 :: "jsnum \<Rightarrow> int" where
  "ToInt32 (Fin q) = (trunc_rat q + 2147483648) mod 4294967296 - 2147483648"
| "ToInt32 _ = 0"

text \<open>
  \<open>String(value)\<close>. The text of a number, an object or a function comes from the platform
  (number formatting, a \<open>toString\<close> method, the source text), so it is the parameter
  \<open>conv\<close>; the other cases are fixed by the language.
\<close>

fun String_js :: "(jsval \<Rightarrow> string) \<Rightarrow> jsval \<Rightarrow> string" where
  "String_js conv Undefined = ''undefined''"
| "String_js conv Null = ''null''"
| "String_js conv (Bool b) = (if b then ''true'' else ''false'')"
| "String_js conv (Str s) = s"
| "String_js conv v = conv v"

definition objectToString :: "jsval \<Rightarrow> string" where
  "objectToString v = ''[object Object]''"

section \<open>Call sites\<close>

text \<open>
  A \<open>CallSite\<close> of the engine, with the two getters the code reads (\<open>getFileName\<close>,
  \<open>getMethodName\<close>) and the position. \<open>getMethodName\<close> returns a string or \<open>null\<close>.
\<close>

record CallSite =
  fileName :: string
  methodName :: "string option"
  functionName :: "string option"
  lineNumber :: nat

text \<open>A frame of the flattened trace: a call site, or \<open>null\<close> (\<open>None\<close>), the separator marker.\<close>

type_synonym frame = "CallSite option"

section \<open>Options (options.js)\<close>

text \<open>
  The options object. \<open>src/options.js\<close> has the two validated fields; the later version of the
  file adds \<open>_formatStack\<close>, the renderer that \<open>index.js\<close> calls, modelled as a record
  extension. The setters work on either.
\<close>

record Options =
  asyncTraceLimit_field :: int
  emptyFrame_field :: string

record Options_fs = Options +
  formatStack_field :: "ref \<Rightarrow> frame list \<Rightarrow> jsval"

definition new_Options :: Options where
  "new_Options =
     \<lparr> asyncTraceLimit_field = 10,
       emptyFrame_field = ''-------------------------------------------------'' \<rparr>"

text \<open>
  A setter either throws (\<open>Inl\<close>) or completes; the second component is the store after the
  assignment statement, so that a rejected assignment visibly keeps the old store.
\<close>

definition set_asyncTraceLimit ::
  "jsval \<Rightarrow> 'a Options_scheme \<Rightarrow> (error + unit) \<times> 'a Options_scheme" where
  "set_asyncTraceLimit v opts =
     (case v of
        Num x \<Rightarrow>
          if x = NaN \<or> ToInt32 x < 0
          then (Inl (TypeError ''asyncTraceLimit must be a positive integer or zero''), opts)
          else (Inr (), opts\<lparr>asyncTraceLimit_field := max (ToInt32 x) 0\<rparr>)
      | _ \<Rightarrow> (Inl (TypeError ''asyncTraceLimit must be a positive integer or zero''), opts))"

definition set_emptyFrame ::
  "(jsval \<Rightarrow> string) \<Rightarrow> jsval \<Rightarrow> 'a Options_scheme \<Rightarrow> (error + unit) \<times> 'a Options_scheme" where
  "set_emptyFrame conv v opts =
     (if \<not> truthy v
      then (Inl (TypeError ''emptyFrame must be a non-empty string''), opts)
      else (Inr (), opts\<lparr>emptyFrame_field := String_js conv v\<rparr>))"

section \<open>Error objects and the module state (double-stack.js)\<close>

text \<open>
  What the first read of an error's \<open>stack\<close> produced: inside \<open>wrap\<close> the hook is replaced
  by the identity, so a trace error's \<open>stack\<close> is the raw array of call sites; for every
  other error it is the text that the installed hook returned.
\<close>

datatype stackval = RawFrames | Text string

text \<open>
  An error object with the hidden properties the module defines on it. \<open>captured\<close> is the
  array of call sites the engine recorded when the object was constructed, which the engine
  hands to \<open>Error.prepareStackTrace\<close> at the first read of \<open>stack\<close>; \<open>stack_memo\<close> is
  the result of that first read. For \<open>__parent__\<close>, \<open>None\<close> is "no such property",
  \<open>Some None\<close> is \<open>null\<close>.
\<close>

record ErrorObj =
  captured :: "CallSite list"
  stack_memo :: "stackval option"
  id_prop :: "nat option"
  parent_prop :: "ref option option"
  stack_prop :: "CallSite list option"
  trace_count_prop :: "nat option"
  cached_trace_prop :: "frame list option"

text \<open>
  The module variables \<open>ERROR_ID\<close>, \<open>currentTraceError\<close> and \<open>options\<close>, and the error
  objects alive, addressed by their position: an allocation appends.
\<close>

record 'o State =
  heap :: "ErrorObj list"
  ERROR_ID :: nat
  currentTraceError :: "ref option"
  options :: "'o Options_scheme"

text \<open>\<open>__filename\<close>, the path of the module itself.\<close>

definition this_filename :: string where
  "this_filename = ''/double-stack/dist/double-stack.js''"

text \<open>\<open>new Error()\<close> in the application: the engine records the call sites \<open>frames\<close>.\<close>

definition new_Error :: "CallSite list \<Rightarrow> 'o State \<Rightarrow> ref \<times> 'o State" where
  "new_Error frames st =
     (length (heap st),
      st\<lparr>heap := heap st @
         [\<lparr> captured = frames, stack_memo = None, id_prop = None, parent_prop = None,
            stack_prop = None, trace_count_prop = None, cached_trace_prop = None \<rparr>]\<rparr>)"

text \<open>\<open>x.__parent__\<close> as a condition or a loop variable: a reference, or falsy.\<close>

definition parent_of :: "ErrorObj list \<Rightarrow> ref \<Rightarrow> ref option" where
  "parent_of h r =
     (if r < length h
      then (case parent_prop (h ! r) of Some (Some p) \<Rightarrow> Some p | _ \<Rightarrow> None)
      else None)"

text \<open>
  \<open>x.__stack__\<close> of a parent. A parent is a trace error made by \<open>wrap\<close>, which always has
  the property; the empty list stands for the other objects.
\<close>

definition stack_of :: "ErrorObj list \<Rightarrow> ref \<Rightarrow> CallSite list" where
  "stack_of h r =
     (if r < length h then (case stack_prop (h ! r) of Some s \<Rightarrow> s | None \<Rightarrow> []) else [])"

definition no_method :: "CallSite \<Rightarrow> bool" where
  "no_method c = (methodName c = None \<or> methodName c = Some [])"

subsection \<open>processStackTrace\<close>

text \<open>
  The loop of lines 73-82 from index \<open>i\<close>: frames of other files are pushed to the cache; a
  frame of this file hands its method name to the frame before it when that one has none.
  The cache holds the call-site objects themselves, so the frame patched at \<open>i - 1\<close>, when it
  was pushed, is the last element of the cache and changes there too.
\<close>

function push_frames :: "nat \<Rightarrow> CallSite list \<Rightarrow> frame list \<Rightarrow> CallSite list \<times> frame list" where
  "push_frames i stack cache =
     (if i < length stack then
        (if fileName (stack ! i) \<noteq> this_filename
         then push_frames (Suc i) stack (cache @ [Some (stack ! i)])
         else if 0 < i \<and> no_method (stack ! (i - 1))
         then (let patched = (stack ! (i - 1))\<lparr>methodName := methodName (stack ! i)\<rparr>
               in push_frames (Suc i) (stack[i - 1 := patched])
                    (if fileName (stack ! (i - 1)) \<noteq> this_filename
                     then butlast cache @ [Some patched] else cache))
         else push_frames (Suc i) stack cache)
      else (stack, cache))"
  by pat_completeness auto
termination
  by (relation "measure (\<lambda>(i, stack, cache). length stack - i)") auto

declare push_frames.simps [simp del]

definition set_cached :: "ErrorObj list \<Rightarrow> ref \<Rightarrow> frame list \<Rightarrow> ErrorObj list" where
  "set_cached h e c = h[e := (h ! e)\<lparr>cached_trace_prop := Some c\<rparr>]"

definition uncached :: "ErrorObj list \<Rightarrow> nat" where
  "uncached h = length (filter (\<lambda>ob. cached_trace_prop ob = None) h)"

text \<open>
  \<open>processStackTrace(error, stack, recursing)\<close>. The cache is defined on the object before the
  recursive call, so an object met again returns its cache at once and the number of
  objects without a cache decreases along the recursion. In the recursive call \<open>stack\<close> is
  the parent's \<open>__stack__\<close> array, which therefore sees the patched call sites; the call
  sites handed in by the engine at the top are not stored in the model. \<open>parent\<close> is the
  parent's cache array itself: should an object be its own parent, the array pushed is the
  one that just received the marker. A reference always denotes an object; for an address
  outside the heap the model returns the empty trace.
\<close>

function processStackTrace ::
  "'o State \<Rightarrow> ref \<Rightarrow> CallSite list \<Rightarrow> bool \<Rightarrow> frame list \<times> 'o State" where
  "processStackTrace st error stack recursing =
     (if length (heap st) \<le> error then ([], st)
      else case cached_trace_prop (heap st ! error) of
        Some cache \<Rightarrow> (cache, st)
      | None \<Rightarrow>
         (let (stack', cache) = push_frames 0 stack [];
              ob = (heap st ! error)
                     \<lparr>cached_trace_prop := Some cache,
                      stack_prop := (if recursing then Some stack' else stack_prop (heap st ! error))\<rparr>;
              ob' = (if (case parent_prop ob of Some (Some p) \<Rightarrow> False | _ \<Rightarrow> True) \<and> \<not> recursing
                     then ob\<lparr>parent_prop := Some (currentTraceError st)\<rparr> else ob);
              st1 = st\<lparr>heap := (heap st)[error := ob']\<rparr>
          in case parent_of (heap st1) error of
               None \<Rightarrow> (cache, st1)
             | Some p \<Rightarrow>
                (let (parent, st2) = processStackTrace st1 p (stack_of (heap st1) p) True
                 in if parent \<noteq> []
                    then (let cache' = cache @ [None] @ (if p = error then cache @ [None] else parent)
                          in (cache', st2\<lparr>heap := set_cached (heap st2) error cache'\<rparr>))
                    else (cache, st2))))"
  by pat_completeness auto
termination
proof (relation "measure (\<lambda>(st, error, stack, recursing). uncached (heap st))", goal_cases)
  case 1
  show ?case by simp
next
  case (2 st error stack recursing x xa y ob ob' st1 p)
  have upd: "uncached (h[e := new]) < uncached h"
    if "e < length h" and "cached_trace_prop (h ! e) = None" and "cached_trace_prop new \<noteq> None"
    for h e new
  proof -
    have h: "h = take e h @ (h ! e) # drop (Suc e) h"
      using that(1) by (simp add: id_take_nth_drop)
    have u: "h[e := new] = take e h @ new # drop (Suc e) h"
      using that(1) by (simp add: upd_conv_take_nth_drop)
    have "uncached h = uncached (take e h) + 1 + uncached (drop (Suc e) h)"
      unfolding uncached_def by (subst h) (simp add: that(2))
    moreover have "uncached (h[e := new]) = uncached (take e h) + uncached (drop (Suc e) h)"
      unfolding uncached_def u using that(3) by simp
    ultimately show ?thesis by simp
  qed
  from 2 show ?case
    by (auto intro!: upd)
qed

declare processStackTrace.simps [simp del]

subsection \<open>prepareStackTrace\<close>

definition newline :: char where
  "newline = CHR 0x0A"

text \<open>\<open>s.split('\n')\<close> and \<open>lines.join('\n')\<close>.\<close>

fun split_nl :: "string \<Rightarrow> string list" where
  "split_nl [] = [[]]"
| "split_nl (c # cs) =
     (if c = newline then [] # split_nl cs
      else (case split_nl cs of l # ls \<Rightarrow> (c # l) # ls | [] \<Rightarrow> [[c]]))"

fun join_nl :: "string list \<Rightarrow> string" where
  "join_nl [] = []"
| "join_nl [l] = l"
| "join_nl (l # ls) = l @ newline # join_nl ls"

text \<open>
  The loop of lines 112-117, with \<open>Suc i\<close> for the loop variable plus one:
  \<open>separators.unshift(i)\<close> and \<open>combined.splice(i, 1)\<close> where \<open>combined[i]\<close> is \<open>null\<close>.
\<close>

fun strip_separators :: "nat \<Rightarrow> frame list \<Rightarrow> nat list \<Rightarrow> nat list \<times> frame list" where
  "strip_separators 0 combined separators = (separators, combined)"
| "strip_separators (Suc i) combined separators =
     (if i < length combined \<and> combined ! i = None
      then strip_separators i (take i combined @ drop (Suc i) combined) (i # separators)
      else strip_separators i combined separators)"

text \<open>\<open>xs.splice(k, 0, x)\<close>: a start beyond the end appends.\<close>

definition splice_in :: "nat \<Rightarrow> 'a \<Rightarrow> 'a list \<Rightarrow> 'a list" where
  "splice_in k x xs = take k xs @ x # drop k xs"

definition insert_separators :: "string \<Rightarrow> nat list \<Rightarrow> string list \<Rightarrow> string list" where
  "insert_separators emptyFrame separators lines =
     foldl (\<lambda>ls i. splice_in (Suc i) emptyFrame ls) lines separators"

text \<open>
  \<open>prepareStackTrace(error, stack)\<close> of \<open>double-stack.js\<close>. \<open>origPrepareStackTrace\<close> is the hook
  found at load time (that of the source-map package), a parameter. \<open>combined\<close> is the array
  that \<open>processStackTrace\<close> returned, which is the error's \<open>__cached_trace__\<close> itself, so the
  \<open>splice\<close> that removes the markers changes the cached array.
\<close>

definition prepareStackTrace ::
  "(ref \<Rightarrow> frame list \<Rightarrow> string) \<Rightarrow> 'o State \<Rightarrow> ref \<Rightarrow> CallSite list \<Rightarrow> string \<times> 'o State" where
  "prepareStackTrace origPrepareStackTrace st error stack =
     (let (combined, st1) = processStackTrace st error stack False;
          (separators, combined') = strip_separators (length combined) combined [];
          st2 = st1\<lparr>heap := set_cached (heap st1) error combined'\<rparr>;
          rendered = origPrepareStackTrace error combined';
          lines = insert_separators (emptyFrame_field (options st2)) separators (split_nl rendered)
      in (join_nl lines, st2))"

text \<open>
  \<open>prepareStackTrace(error, stack, recursing)\<close> of \<open>index.js\<close>, the earlier version of the
  module. Its lines 50-76 are the body of \<open>processStackTrace\<close> above, and its recursive call
  passes \<open>recursing = true\<close>, which returns the cache; the call by the engine returns
  \<open>options.formatStack(error, cache, sourceMap) || ''\<close>.
\<close>

definition prepareStackTrace_index ::
  "'a Options_fs_ext State \<Rightarrow> ref \<Rightarrow> CallSite list \<Rightarrow> jsval \<times> 'a Options_fs_ext State" where
  "prepareStackTrace_index st error stack =
     (let (cache, st1) = processStackTrace st error stack False;
          formatted = formatStack_field (options st1) error cache
      in ((if truthy formatted then formatted else Str []), st1))"

subsection \<open>wrap\<close>

text \<open>The loop of lines 166-169: \<open>while (previous && count > 1)\<close>.\<close>

function limit_walk :: "ErrorObj list \<Rightarrow> ref option \<Rightarrow> int \<Rightarrow> ref option" where
  "limit_walk h previous count =
     (case previous of
        None \<Rightarrow> None
      | Some p \<Rightarrow> if count > 1 then limit_walk h (parent_of h p) (count - 1) else Some p)"
  by pat_completeness auto
termination
  by (relation "measure (\<lambda>(h, previous, count). nat count)") auto

declare limit_walk.simps [simp del]

definition delete_parent :: "ErrorObj list \<Rightarrow> ref \<Rightarrow> ErrorObj list" where
  "delete_parent h r = h[r := (h ! r)\<lparr>parent_prop := None\<rparr>]"

text \<open>
  Lines 147-173 of the closure that \<open>wrap\<close> returns: the trace error is created with the
  call sites \<open>stack\<close> of the caller, linked to \<open>currentTraceError\<close>, and the chain is limited.
\<close>

definition wrap_capture :: "CallSite list \<Rightarrow> 'o State \<Rightarrow> ref \<times> 'o State" where
  "wrap_capture stack st =
     (let traceError = length (heap st);
          ob = \<lparr> captured = stack, stack_memo = Some RawFrames,
                 id_prop = Some (ERROR_ID st),
                 parent_prop = Some (currentTraceError st),
                 stack_prop = Some stack,
                 trace_count_prop =
                   (case currentTraceError st of
                      Some c \<Rightarrow> (if c < length (heap st)
                                 then map_option Suc (trace_count_prop (heap st ! c)) else None)
                    | None \<Rightarrow> Some 1),
                 cached_trace_prop = None \<rparr>;
          st1 = st\<lparr>heap := heap st @ [ob], ERROR_ID := Suc (ERROR_ID st)\<rparr>;
          limit = asyncTraceLimit_field (options st1)
      in (traceError,
          if limit > 0
          then (case limit_walk (heap st1) (Some traceError) (limit - 1) of
                  Some previous \<Rightarrow> st1\<lparr>heap := delete_parent (heap st1) previous\<rparr>
                | None \<Rightarrow> st1)
          else st1))"

datatype positions = One nat | Many "nat list"

fun positions_list :: "positions \<Rightarrow> nat list" where
  "positions_list (One n) = [n]"
| "positions_list (Many ns) = ns"

text \<open>Lines 180-200: the callbacks among the arguments are replaced by shims.\<close>

definition wrap_args :: "ref \<Rightarrow> nat list \<Rightarrow> jsval list \<Rightarrow> jsval list" where
  "wrap_args traceError callbackPositions arguments =
     foldl (\<lambda>args pos.
              if pos < length arguments
              then (case arguments ! pos of
                      Func callback \<Rightarrow> args[pos := Func (Shim traceError pos callback)]
                    | _ \<Rightarrow> args)
              else args)
       arguments callbackPositions"

text \<open>
  An exception in flight: a value thrown by the application, or an error raised by the
  engine. The latter has no address in the heap of the model, so that reading its \<open>stack\<close>
  records nothing there.
\<close>

datatype thrown = Thrown jsval | Raised error

text \<open>
  The first read of \<open>e.stack\<close> on an error object calls the installed hook with the call sites
  recorded at construction and keeps the result; on \<open>null\<close> or \<open>undefined\<close> the read raises.
\<close>

definition read_stack ::
  "(ref \<Rightarrow> frame list \<Rightarrow> string) \<Rightarrow> jsval \<Rightarrow> 'o State \<Rightarrow> (error + unit) \<times> 'o State" where
  "read_stack origPrepareStackTrace e st =
     (case e of
        Undefined \<Rightarrow> (Inl (TypeError ''Cannot read property stack of undefined''), st)
      | Null \<Rightarrow> (Inl (TypeError ''Cannot read property stack of null''), st)
      | Err r \<Rightarrow>
          if r < length (heap st) \<and> stack_memo (heap st ! r) = None
          then (let (text, st') = prepareStackTrace origPrepareStackTrace st r (captured (heap st ! r))
                in (Inr (), st'\<lparr>heap := (heap st')[r := (heap st' ! r)\<lparr>stack_memo := Some (Text text)\<rparr>]\<rparr>))
          else (Inr (), st)
      | _ \<Rightarrow> (Inr (), st))"

text \<open>
  Calling a function object with a \<open>this\<close> value and arguments, in the module state paired
  with the state \<open>'w\<close> of the rest of the program. A function of the application is given by
  \<open>env\<close>. A shim is the closure of lines 184-194.
\<close>

type_synonym ('o, 'w) behaviour =
  "jsval \<Rightarrow> jsval list \<Rightarrow> 'o State \<times> 'w \<Rightarrow> (thrown + jsval) \<times> ('o State \<times> 'w)"

fun apply_fn ::
  "(ref \<Rightarrow> frame list \<Rightarrow> string) \<Rightarrow> (nat \<Rightarrow> ('o, 'w) behaviour) \<Rightarrow> fn \<Rightarrow> ('o, 'w) behaviour" where
  "apply_fn orig env (Plain n) this args s = env n this args s"
| "apply_fn orig env (Shim traceError pos callback) this args s =
     (case apply_fn orig env callback this args
             ((fst s)\<lparr>currentTraceError := Some traceError\<rparr>, snd s) of
        (Inr v, (st', w')) \<Rightarrow> (Inr v, (st'\<lparr>currentTraceError := None\<rparr>, w'))
      | (Inl (Thrown e), (st', w')) \<Rightarrow>
          (case read_stack orig e st' of
             (Inr u, st'') \<Rightarrow> (Inl (Thrown e), (st''\<lparr>currentTraceError := None\<rparr>, w'))
           | (Inl err, st'') \<Rightarrow> (Inl (Raised err), (st''\<lparr>currentTraceError := None\<rparr>, w')))
      | (Inl (Raised err), (st', w')) \<Rightarrow>
          (Inl (Raised err), (st'\<lparr>currentTraceError := None\<rparr>, w')))"

text \<open>
  The function being wrapped, from the platform: what a plain call does and what a call
  with \<open>new\<close> does.
\<close>

record ('o, 'w) native =
  call_native :: "('o, 'w) behaviour"
  construct_native :: "jsval list \<Rightarrow> 'o State \<times> 'w \<Rightarrow> (thrown + jsval) \<times> ('o State \<times> 'w)"

text \<open>
  The closure \<open>fn\<close> that \<open>wrap(originalFunction, callbackPositions, embedStack, isConstructor)\<close>
  returns, called with \<open>this\<close> and \<open>arguments\<close> from a point whose call sites are \<open>stack\<close>.
  The result is the handle with, when it was attached, the value of its \<open>__stack__\<close>
  property; \<open>wrapCallSite\<close> is the function of the source-map package.
\<close>

definition wrap ::
  "('o, 'w) native \<Rightarrow> positions \<Rightarrow> bool \<Rightarrow> bool \<Rightarrow> (CallSite \<Rightarrow> CallSite) \<Rightarrow> CallSite list \<Rightarrow>
   jsval \<Rightarrow> jsval list \<Rightarrow> 'o State \<times> 'w \<Rightarrow>
   (thrown + jsval \<times> CallSite list option) \<times> ('o State \<times> 'w)" where
  "wrap originalFunction callbackPositions embedStack isConstructor wrapCallSite stack
        this arguments s =
     (let (traceError, st1) = wrap_capture stack (fst s);
          args = wrap_args traceError (positions_list callbackPositions) arguments;
          (r, s2) = (if isConstructor
                     then construct_native originalFunction args (st1, snd s)
                     else call_native originalFunction this args (st1, snd s))
      in case r of
           Inl ex \<Rightarrow> (Inl ex, s2)
         | Inr handle \<Rightarrow>
             if embedStack \<and> truthy handle
             then (Inr (handle,
                        Some (map wrapCallSite
                                (filter (\<lambda>frame. fileName frame \<noteq> this_filename)
                                   (stack_of (heap (fst s2)) traceError)))), s2)
             else (Inr (handle, None), s2))"

section \<open>Event emitters\<close>

text \<open>
  The emitter of the platform, as far as the module uses it: per event name the array of
  registered functions. \<open>addListener\<close> appends and returns the emitter, \<open>listeners\<close> returns
  a copy of the array, \<open>removeListener\<close> removes the most recently added instance of the
  function it is given, and \<open>emit\<close> calls the functions of the array in order.
\<close>

record EventEmitter =
  events :: "string \<Rightarrow> fn list"

definition orig_addListener :: "EventEmitter \<Rightarrow> string \<Rightarrow> fn \<Rightarrow> EventEmitter" where
  "orig_addListener em type listener = em\<lparr>events := (events em)(type := events em type @ [listener])\<rparr>"

definition orig_listeners :: "EventEmitter \<Rightarrow> string \<Rightarrow> fn list" where
  "orig_listeners em type = events em type"

definition remove_last :: "'a \<Rightarrow> 'a list \<Rightarrow> 'a list" where
  "remove_last x xs = rev (remove1 x (rev xs))"

definition orig_removeListener :: "EventEmitter \<Rightarrow> string \<Rightarrow> fn \<Rightarrow> EventEmitter" where
  "orig_removeListener em type listener =
     em\<lparr>events := (events em)(type := remove_last listener (events em type))\<rparr>"

text \<open>\<open>listener.__original_callback__ || listener\<close>.\<close>

fun original_callback :: "fn \<Rightarrow> fn" where
  "original_callback (Shim traceError pos callback) = callback"
| "original_callback (Plain n) = Plain n"

definition listeners :: "EventEmitter \<Rightarrow> string \<Rightarrow> fn list" where
  "listeners em type = map original_callback (orig_listeners em type)"

text \<open>The loop of \<open>removeListener\<close>: the first registered function that matches.\<close>

fun find_wrapped :: "fn list \<Rightarrow> jsval \<Rightarrow> fn option" where
  "find_wrapped [] listener = None"
| "find_wrapped (wrappedListener # rest) listener =
     (if Func (original_callback wrappedListener) = listener \<or> Func wrappedListener = listener
      then Some wrappedListener
      else find_wrapped rest listener)"

definition removeListener :: "EventEmitter \<Rightarrow> string \<Rightarrow> jsval \<Rightarrow> EventEmitter" where
  "removeListener em type listener =
     (case find_wrapped (orig_listeners em type) listener of
        Some wrappedListener \<Rightarrow> orig_removeListener em type wrappedListener
      | None \<Rightarrow> em)"

definition new_EventEmitter :: EventEmitter where
  "new_EventEmitter = \<lparr> events = (\<lambda>type. []) \<rparr>"

text \<open>
  \<open>emit\<close> of the platform: the functions registered for the event when \<open>emit\<close> starts are
  called in order with the emitter as \<open>this\<close>; an exception ends the emission.
\<close>

fun call_listeners ::
  "(ref \<Rightarrow> frame list \<Rightarrow> string) \<Rightarrow> (nat \<Rightarrow> ('o, 'w) behaviour) \<Rightarrow> fn list \<Rightarrow>
   jsval \<Rightarrow> jsval list \<Rightarrow> 'o State \<times> 'w \<Rightarrow> (thrown + unit) \<times> ('o State \<times> 'w)" where
  "call_listeners orig env [] this args s = (Inr (), s)"
| "call_listeners orig env (f # fs) this args s =
     (case apply_fn orig env f this args s of
        (Inl ex, s') \<Rightarrow> (Inl ex, s')
      | (Inr v, s') \<Rightarrow> call_listeners orig env fs this args s')"

definition emit ::
  "(ref \<Rightarrow> frame list \<Rightarrow> string) \<Rightarrow> (nat \<Rightarrow> ('o, EventEmitter) behaviour) \<Rightarrow>
   jsval \<Rightarrow> string \<Rightarrow> jsval list \<Rightarrow> 'o State \<times> EventEmitter \<Rightarrow>
   (thrown + unit) \<times> ('o State \<times> EventEmitter)" where
  "emit orig env this type args s =
     call_listeners orig env (orig_listeners (snd s) type) this args s"

text \<open>
  \<open>EventEmitter.prototype.addListener = wrap(EventEmitter.prototype.addListener, 1)\<close>, also
  installed as \<open>on\<close>. The original is the function of the platform, here on the emitter
  that is \<open>this\<close>, with a string as the event name; it is not a constructor. The emitter
  of this model is keyed by strings: a call whose event name is not a string (a symbol, a
  number) is outside the model, and nothing below is stated about it.
\<close>

definition addListener_native :: "('o, EventEmitter) native" where
  "addListener_native =
     \<lparr> call_native = (\<lambda>this args s.
          case args of
            Str type # Func listener # rest \<Rightarrow>
              (Inr this, (fst s, orig_addListener (snd s) type listener))
          | _ \<Rightarrow> (Inl (Raised (TypeError ''listener must be a function'')), s)),
       construct_native = (\<lambda>args s.
          (Inl (Raised (TypeError ''addListener is not a constructor'')), s)) \<rparr>"

definition addListener ::
  "(CallSite \<Rightarrow> CallSite) \<Rightarrow> CallSite list \<Rightarrow> jsval \<Rightarrow> jsval list \<Rightarrow> 'o State \<times> EventEmitter \<Rightarrow>
   (thrown + jsval \<times> CallSite list option) \<times> ('o State \<times> EventEmitter)" where
  "addListener = wrap addListener_native (One 1) False False"

text \<open>
  A run of registrations \<open>emitter.on(type, callback)\<close> on one emitter, each from a point
  with its own call sites.
\<close>

fun register_all ::
  "(CallSite \<Rightarrow> CallSite) \<Rightarrow> jsval \<Rightarrow> string \<Rightarrow> (fn \<times> CallSite list) list \<Rightarrow>
   'o State \<times> EventEmitter \<Rightarrow> 'o State \<times> EventEmitter" where
  "register_all wrapCallSite this type [] s = s"
| "register_all wrapCallSite this type ((callback, stack) # rest) s =
     register_all wrapCallSite this type rest
       (snd (addListener wrapCallSite stack this [Str type, Func callback] s))"

definition initial_State :: "unit State" where
  "initial_State =
     \<lparr> heap = [], ERROR_ID = 1, currentTraceError = None, options = new_Options \<rparr>"

text \<open>
  Whether calling a function object reaches the function \<open>n\<close> of the application: a shim
  calls its callback.
\<close>

fun invokes :: "fn \<Rightarrow> nat \<Rightarrow> bool" where
  "invokes (Plain m) n = (m = n)"
| "invokes (Shim traceError pos callback) n = invokes callback n"

section \<open>Sample functions for concrete runs\<close>

text \<open>An application in which every function returns \<open>v\<close> and does nothing else.\<close>

definition env_const :: "jsval \<Rightarrow> nat \<Rightarrow> ('o, 'w) behaviour" where
  "env_const v n this args s = (Inr v, s)"

text \<open>
  An application in which every function returns the trace error that is current while it
  runs (or \<open>null\<close>).
\<close>

definition env_current :: "nat \<Rightarrow> ('o, 'w) behaviour" where
  "env_current n this args s =
     (Inr (case currentTraceError (fst s) of Some r \<Rightarrow> Err r | None \<Rightarrow> Null), s)"

text \<open>An application in which every function returns its \<open>this\<close> value.\<close>

definition env_this :: "nat \<Rightarrow> ('o, 'w) behaviour" where
  "env_this n this args s = (Inr this, s)"

text \<open>An application in which every function throws \<open>v\<close>.\<close>

definition env_throw :: "jsval \<Rightarrow> nat \<Rightarrow> ('o, 'w) behaviour" where
  "env_throw v n this args s = (Inl (Thrown v), s)"

text \<open>A renderer of the platform that prints \<open>Error\<close> and one line \<open>at\<close> per frame.\<close>

definition orig_sample :: "ref \<Rightarrow> frame list \<Rightarrow> string" where
  "orig_sample error frames = join_nl (''Error'' # map (\<lambda>f. ''    at'') frames)"

definition user_frame :: CallSite where
  "user_frame =
     \<lparr> fileName = ''/app/main.js'', methodName = None, functionName = Some ''foo'',
       lineNumber = 1 \<rparr>"

text \<open>A call site inside the module itself.\<close>

definition module_frame :: CallSite where
  "module_frame =
     \<lparr> fileName = this_filename, methodName = None, functionName = Some ''wrap'',
       lineNumber = 147 \<rparr>"

text \<open>
  A state inside a running callback: a first scheduling call at the top level made trace
  error 0, its shim has started (0 is current), and the callback has made a second
  scheduling call, which made trace error 1.
\<close>

definition nested_State :: "unit State" where
  "nested_State =
     snd (wrap_capture [user_frame]
            ((snd (wrap_capture [user_frame] initial_State))\<lparr>currentTraceError := Some 0\<rparr>))"

text \<open>A renderer that returns no value, and a state of \<open>index.js\<close> configured with it.\<close>

definition formatStack_noop :: "ref \<Rightarrow> frame list \<Rightarrow> jsval" where
  "formatStack_noop error frames = Undefined"

definition noop_State :: "unit Options_fs_ext State" where
  "noop_State =
     \<lparr> heap = [], ERROR_ID = 1, currentTraceError = None,
       options = \<lparr> asyncTraceLimit_field = 10,
                   emptyFrame_field = ''-------------------------------------------------'',
                   formatStack_field = formatStack_noop \<rparr> \<rparr>"

section \<open>Notions for the properties of the trace\<close>

text \<open>The frames of one trace error in the flattened trace: those of other files.\<close>

definition own_frames :: "CallSite list \<Rightarrow> frame list" where
  "own_frames stack = snd (push_frames 0 stack [])"

text \<open>
  The state of \<open>processStackTrace\<close> at line 88, for an error without a cache: its own
  frames are cached, and at the top level a missing parent has been set to the current
  trace error.
\<close>

definition pst_enter :: "'o State \<Rightarrow> ref \<Rightarrow> CallSite list \<Rightarrow> bool \<Rightarrow> 'o State" where
  "pst_enter st error stack recursing =
     (let ob = (heap st ! error)
                 \<lparr>cached_trace_prop := Some (own_frames stack),
                  stack_prop := (if recursing then Some (fst (push_frames 0 stack []))
                                 else stack_prop (heap st ! error))\<rparr>;
          ob' = (if (case parent_prop ob of Some (Some p) \<Rightarrow> False | _ \<Rightarrow> True) \<and> \<not> recursing
                 then ob\<lparr>parent_prop := Some (currentTraceError st)\<rparr> else ob)
      in st\<lparr>heap := (heap st)[error := ob']\<rparr>)"

text \<open>
  A chain: the trace errors reached from the first one by \<open>__parent__\<close>, up to one whose
  parent is missing or \<open>null\<close>.
\<close>

fun is_chain :: "ErrorObj list \<Rightarrow> ref list \<Rightarrow> bool" where
  "is_chain h [] = False"
| "is_chain h [r] = (r < length h \<and> parent_of h r = None)"
| "is_chain h (r # p # ps) = (r < length h \<and> parent_of h r = Some p \<and> is_chain h (p # ps))"

text \<open>
  A chain of nested scheduling calls, one per element of the list, which gives the call
  sites of each call. The first call is made with the slot as it is in the start state;
  every later call is made by the callback of the one before: the shim of trace error \<open>t\<close>
  has set the slot to \<open>t\<close> (the shim that ran before has cleared it on its way out), and
  its callback calls the wrapped function again.
\<close>

fun run_chain :: "CallSite list list \<Rightarrow> 'o State \<Rightarrow> 'o State" where
  "run_chain [] st = st"
| "run_chain (stack # rest) st =
     run_chain rest
       ((snd (wrap_capture stack st))\<lparr>currentTraceError := Some (fst (wrap_capture stack st))\<rparr>)"

text \<open>
  An error is created where the call sites are \<open>frames\<close>, and its \<open>stack\<close> is read: the
  engine calls the hook.
\<close>

definition raise_and_render ::
  "(ref \<Rightarrow> frame list \<Rightarrow> string) \<Rightarrow> CallSite list \<Rightarrow> 'o State \<Rightarrow> string \<times> 'o State" where
  "raise_and_render orig frames st =
     prepareStackTrace orig (snd (new_Error frames st)) (fst (new_Error frames st)) frames"

text \<open>The number of lines of a trace that are the separator token.\<close>

definition separators_in :: "string \<Rightarrow> string \<Rightarrow> nat" where
  "separators_in emptyFrame trace = count_list (split_nl trace) emptyFrame"

definition external :: "CallSite \<Rightarrow> bool" where
  "external frame = (fileName frame \<noteq> this_filename)"

subsection \<open>The chain as the event loop runs it\<close>

text \<open>
  A scheduler of the platform such as \<open>setTimeout\<close>: it puts its first argument on the queue
  of the event loop and returns a handle. The module installs
  \<open>wrap(global.setTimeout, 0, true)\<close> in its place.
\<close>

definition setTimeout_native :: "('o, jsval list) native" where
  "setTimeout_native =
     \<lparr> call_native = (\<lambda>this args s.
          (Inr (Obj 0), (fst s, snd s @ [case args of [] \<Rightarrow> Undefined | a # rest \<Rightarrow> a]))),
       construct_native = (\<lambda>args s.
          (Inl (Raised (TypeError ''setTimeout is not a constructor'')), s)) \<rparr>"

definition setTimeout ::
  "(CallSite \<Rightarrow> CallSite) \<Rightarrow> CallSite list \<Rightarrow> jsval \<Rightarrow> jsval list \<Rightarrow> 'o State \<times> jsval list \<Rightarrow>
   (thrown + jsval \<times> CallSite list option) \<times> ('o State \<times> jsval list)" where
  "setTimeout = wrap setTimeout_native (One 0) True False"

text \<open>
  An application that makes a chain: its function \<open>n\<close> schedules its function \<open>n + 1\<close> from
  a point whose call sites are the \<open>n\<close>-th element of \<open>stacks\<close>; the function after the
  last one creates an error where the call sites are \<open>frames\<close> and throws it.
\<close>

definition chain_app ::
  "(CallSite \<Rightarrow> CallSite) \<Rightarrow> CallSite list \<Rightarrow> CallSite list list \<Rightarrow> nat \<Rightarrow> ('o, jsval list) behaviour" where
  "chain_app wrapCallSite frames stacks n this args s =
     (if n < length stacks
      then (case setTimeout wrapCallSite (stacks ! n) Undefined
                   [Func (Plain (Suc n)), Num (Fin 0)] s of
              (Inl ex, s') \<Rightarrow> (Inl ex, s')
            | (Inr handle, s') \<Rightarrow> (Inr Undefined, s'))
      else (Inl (Thrown (Err (fst (new_Error frames (fst s))))),
            (snd (new_Error frames (fst s)), snd s)))"

text \<open>
  The event loop: it takes the callbacks from the queue one after the other and calls them,
  up to \<open>k\<close> of them, until one throws.
\<close>

fun drain ::
  "nat \<Rightarrow> (ref \<Rightarrow> frame list \<Rightarrow> string) \<Rightarrow> (nat \<Rightarrow> ('o, jsval list) behaviour) \<Rightarrow>
   'o State \<times> jsval list \<Rightarrow> (thrown + unit) \<times> ('o State \<times> jsval list)" where
  "drain 0 orig env s = (Inr (), s)"
| "drain (Suc k) orig env s =
     (case snd s of
        [] \<Rightarrow> (Inr (), s)
      | Func f # rest \<Rightarrow>
          (case apply_fn orig env f Undefined [] (fst s, rest) of
             (Inl ex, s') \<Rightarrow> (Inl ex, s')
           | (Inr v, s') \<Rightarrow> drain k orig env s')
      | v # rest \<Rightarrow> drain k orig env (fst s, rest))"

text \<open>
  The program: function 0 of the chain application is called at the top level, then the
  event loop runs.
\<close>

definition run_program ::
  "(ref \<Rightarrow> frame list \<Rightarrow> string) \<Rightarrow> (CallSite \<Rightarrow> CallSite) \<Rightarrow> CallSite list \<Rightarrow>
   CallSite list list \<Rightarrow> 'o State \<Rightarrow> (thrown + unit) \<times> ('o State \<times> jsval list)" where
  "run_program orig wrapCallSite frames stacks st =
     (case chain_app wrapCallSite frames stacks 0 Undefined [] (st, []) of
        (Inl ex, s') \<Rightarrow> (Inl ex, s')
      | (Inr v, s') \<Rightarrow> drain (length stacks) orig (chain_app wrapCallSite frames stacks) s')"

text \<open>
  The chain \<open>rs\<close> hangs from the current trace error, and none of its members has been
  flattened yet; each has a frame outside the module. The empty list: no current trace
  error.
\<close>

definition chain_ok :: "'o State \<Rightarrow> ref list \<Rightarrow> bool" where
  "chain_ok st rs =
     ((case rs of
         [] \<Rightarrow> currentTraceError st = None
       | r # rest \<Rightarrow> currentTraceError st = Some r \<and> is_chain (heap st) rs)
      \<and> distinct rs
      \<and> (\<forall>x\<in>set rs. x < length (heap st) \<and> cached_trace_prop (heap st ! x) = None
                      \<and> own_frames (stack_of (heap st) x) \<noteq> []))"

text \<open>The part of a chain that the limit \<open>L\<close> keeps.\<close>

definition kept :: "int \<Rightarrow> ref list \<Rightarrow> ref list" where
  "kept L c = (if 0 < L then take (nat (max 1 (L - 1))) c else c)"

text \<open>The start state of the module with the limit set to \<open>L\<close>.\<close>

definition limit_State :: "int \<Rightarrow> unit State" where
  "limit_State L = initial_State\<lparr>options := new_Options\<lparr>asyncTraceLimit_field := L\<rparr>\<rparr>"

text \<open>
  The first rendering of an error raised in the callback of one scheduling call, under the
  default options.
\<close>

definition first_render :: "string \<times> unit State" where
  "first_render = raise_and_render orig_sample [user_frame] (run_chain [[user_frame]] initial_State)"

section \<open>The setters of the options\<close>

lemma trunc_rat_neg:
  "- 2147483649 < q \<Longrightarrow> q \<le> - 1 \<Longrightarrow> - 2147483648 \<le> trunc_rat q \<and> trunc_rat q < 0"
  unfolding trunc_rat_def by (auto simp: le_ceiling_iff ceiling_less_iff)

lemma trunc_rat_small: "- 1 < q \<Longrightarrow> q < 0 \<Longrightarrow> trunc_rat q = 0"
  unfolding trunc_rat_def by (auto simp: ceiling_eq_iff)

lemma trunc_rat_pos:
  "0 \<le> q \<Longrightarrow> q < 2147483648 \<Longrightarrow>
   trunc_rat q = \<lfloor>q\<rfloor> \<and> 0 \<le> \<lfloor>q\<rfloor> \<and> \<lfloor>q\<rfloor> < 2147483648"
  unfolding trunc_rat_def by (auto simp: floor_less_iff)

lemma floor_37_10: "\<lfloor>37 / 10 :: rat\<rfloor> = 3"
  by code_simp

lemma trunc_rat_minus_half: "trunc_rat (- 1 / 2) = 0"
  by code_simp

text \<open>
  C6, as the code has it. The setter of \<open>asyncTraceLimit\<close> rejects a value that is not a
  number or is \<open>NaN\<close>, and a number whose truncation \<open>~~value\<close> is negative, that is a number
  that is at most \<open>-1\<close>; the store is then unchanged. Every number above \<open>-1\<close> is accepted
  and the stored value is its floor clamped at zero, so a negative number above \<open>-1\<close> is
  accepted and stores zero. (Stated for the numbers whose truncation fits 32 bits; beyond
  them \<open>~~\<close> wraps around.)
\<close>

theorem asyncTraceLimit_setter_truncates:
  "(\<not> is_number v \<or> v = Num NaN \<longrightarrow>
      set_asyncTraceLimit v opts =
        (Inl (TypeError ''asyncTraceLimit must be a positive integer or zero''), opts))
   \<and> (- 2147483649 < q \<and> q \<le> - 1 \<longrightarrow>
      set_asyncTraceLimit (Num (Fin q)) opts =
        (Inl (TypeError ''asyncTraceLimit must be a positive integer or zero''), opts))
   \<and> (- 1 < q \<and> q < 2147483648 \<longrightarrow>
      set_asyncTraceLimit (Num (Fin q)) opts =
        (Inr (), opts\<lparr>asyncTraceLimit_field := max \<lfloor>q\<rfloor> 0\<rparr>))"
proof (intro conjI impI)
  assume "\<not> is_number v \<or> v = Num NaN"
  then show "set_asyncTraceLimit v opts =
        (Inl (TypeError ''asyncTraceLimit must be a positive integer or zero''), opts)"
    by (cases v) (auto simp: set_asyncTraceLimit_def)
next
  assume a: "- 2147483649 < q \<and> q \<le> - 1"
  then have "- 2147483648 \<le> trunc_rat q \<and> trunc_rat q < 0"
    using trunc_rat_neg by blast
  then have "ToInt32 (Fin q) < 0" by simp
  then show "set_asyncTraceLimit (Num (Fin q)) opts =
        (Inl (TypeError ''asyncTraceLimit must be a positive integer or zero''), opts)"
    by (simp add: set_asyncTraceLimit_def)
next
  assume a: "- 1 < q \<and> q < 2147483648"
  show "set_asyncTraceLimit (Num (Fin q)) opts =
        (Inr (), opts\<lparr>asyncTraceLimit_field := max \<lfloor>q\<rfloor> 0\<rparr>)"
  proof (cases "q < 0")
    case True
    with a have t: "trunc_rat q = 0" using trunc_rat_small by blast
    from True have "\<lfloor>q\<rfloor> < 0" by (simp add: floor_less_iff)
    then have "max \<lfloor>q\<rfloor> 0 = 0" by simp
    with t show ?thesis by (simp add: set_asyncTraceLimit_def)
  next
    case False
    with a have t: "trunc_rat q = \<lfloor>q\<rfloor> \<and> 0 \<le> \<lfloor>q\<rfloor> \<and> \<lfloor>q\<rfloor> < 2147483648"
      using trunc_rat_pos [of q] by simp
    then have "ToInt32 (Fin q) = \<lfloor>q\<rfloor>" by simp
    with t show ?thesis by (simp add: set_asyncTraceLimit_def)
  qed
qed

theorem asyncTraceLimit_setter_truncates_witness:
  "set_asyncTraceLimit (Str ''foo'') new_Options =
      (Inl (TypeError ''asyncTraceLimit must be a positive integer or zero''), new_Options)
   \<and> set_asyncTraceLimit (Num (Fin (- 3 / 2))) new_Options =
      (Inl (TypeError ''asyncTraceLimit must be a positive integer or zero''), new_Options)
   \<and> set_asyncTraceLimit (Num (Fin (37 / 10))) new_Options =
      (Inr (), new_Options\<lparr>asyncTraceLimit_field := 3\<rparr>)"
  using asyncTraceLimit_setter_truncates
          [where v = "Str ''foo''" and q = "- 3 / 2" and opts = new_Options]
        asyncTraceLimit_setter_truncates
          [where v = "Str ''foo''" and q = "37 / 10" and opts = new_Options]
        floor_37_10
  by simp

text \<open>
  C6 as stated fails: \<open>-0.5\<close> is a negative number, and assigning it raises nothing and
  stores zero.
\<close>

theorem asyncTraceLimit_negative_accepted:
  "set_asyncTraceLimit (Num (Fin (- 1 / 2))) new_Options =
     (Inr (), new_Options\<lparr>asyncTraceLimit_field := 0\<rparr>)"
  using trunc_rat_minus_half by (simp add: set_asyncTraceLimit_def)

lemma truthy_iff:
  "truthy v = (v \<notin> {Undefined, Null, Str [], Bool False, Num (Fin 0), Num NaN})"
  by (cases v rule: truthy.cases) auto

text \<open>
  C7, as the code has it. The setter of \<open>emptyFrame\<close> rejects every falsy value (\<open>null\<close>,
  \<open>undefined\<close>, the empty string, and also \<open>false\<close>, zero and \<open>NaN\<close>) and leaves the store
  unchanged; for every truthy value the stored token is \<open>String(value)\<close>.
\<close>

theorem emptyFrame_setter_falsy:
  "(v \<in> {Undefined, Null, Str [], Bool False, Num (Fin 0), Num NaN} \<longrightarrow>
      set_emptyFrame conv v opts =
        (Inl (TypeError ''emptyFrame must be a non-empty string''), opts))
   \<and> (v \<notin> {Undefined, Null, Str [], Bool False, Num (Fin 0), Num NaN} \<longrightarrow>
      set_emptyFrame conv v opts = (Inr (), opts\<lparr>emptyFrame_field := String_js conv v\<rparr>))"
  unfolding truthy_iff [symmetric] by (simp add: set_emptyFrame_def)

theorem emptyFrame_setter_falsy_witness:
  "set_emptyFrame objectToString Null new_Options =
      (Inl (TypeError ''emptyFrame must be a non-empty string''), new_Options)
   \<and> set_emptyFrame objectToString (Str ''***'') new_Options =
      (Inr (), new_Options\<lparr>emptyFrame_field := ''***''\<rparr>)"
  using emptyFrame_setter_falsy [where v = Null and conv = objectToString and opts = new_Options]
        emptyFrame_setter_falsy
          [where v = "Str ''***''" and conv = objectToString and opts = new_Options]
  by simp

text \<open>
  C7 as stated fails: \<open>false\<close> is neither \<open>null\<close>, \<open>undefined\<close> nor the empty string, its
  string form is \<open>false\<close>, and assigning it raises the type error.
\<close>

theorem emptyFrame_false_rejected:
  "set_emptyFrame objectToString (Bool False) new_Options =
     (Inl (TypeError ''emptyFrame must be a non-empty string''), new_Options)
   \<and> String_js objectToString (Bool False) = ''false''"
  by (simp add: set_emptyFrame_def)

section \<open>Registration, enumeration and removal of listeners\<close>

lemma wrap_capture_fst: "fst (wrap_capture stack st) = length (heap st)"
  by (simp add: wrap_capture_def Let_def)

lemma wrap_capture_length:
  "length (heap (snd (wrap_capture stack st))) = Suc (length (heap st))"
  by (simp add: wrap_capture_def Let_def delete_parent_def split: option.splits)

lemma wrap_capture_options: "options (snd (wrap_capture stack st)) = options st"
  by (simp add: wrap_capture_def Let_def split: option.splits)

lemma wrap_capture_current:
  "currentTraceError (snd (wrap_capture stack st)) = currentTraceError st"
  by (simp add: wrap_capture_def Let_def split: option.splits)

lemma wrap_args_one_callback:
  "wrap_args t [Suc 0] [a, Func cb] = [a, Func (Shim t (Suc 0) cb)]"
  by (simp add: wrap_args_def)

lemma addListener_registers:
  "snd (addListener wcs stack this [Str type, Func cb] (st, em)) =
     (snd (wrap_capture stack st),
      orig_addListener em type (Shim (length (heap st)) (Suc 0) cb))"
proof -
  obtain t st1 where c: "wrap_capture stack st = (t, st1)" by (cases "wrap_capture stack st")
  then have t: "t = length (heap st)" using wrap_capture_fst [of stack st] by simp
  show ?thesis
    unfolding addListener_def wrap_def
    by (simp add: c t wrap_args_one_callback addListener_native_def)
qed

lemma register_all_raw:
  "orig_listeners (snd (register_all wcs this type regs (st, em))) type =
     orig_listeners em type @
       map (\<lambda>i. Shim (length (heap st) + i) (Suc 0) (fst (regs ! i))) [0..<length regs]"
proof (induction regs arbitrary: st em)
  case Nil
  then show ?case by simp
next
  case (Cons r regs)
  obtain cb stack where r: "r = (cb, stack)" by (cases r)
  have "[0..<length (r # regs)] = 0 # map Suc [0..<length regs]"
    by (simp add: upt_conv_Cons map_Suc_upt del: upt_Suc)
  then have m: "map (\<lambda>i. Shim (length (heap st) + i) (Suc 0) (fst ((r # regs) ! i))) [0..<length (r # regs)]
      = Shim (length (heap st)) (Suc 0) cb #
        map (\<lambda>i. Shim (Suc (length (heap st)) + i) (Suc 0) (fst (regs ! i))) [0..<length regs]"
    by (simp add: r comp_def)
  have "orig_listeners (snd (register_all wcs this type (r # regs) (st, em))) type =
        orig_listeners (snd (register_all wcs this type regs
           (snd (wrap_capture stack st), orig_addListener em type (Shim (length (heap st)) (Suc 0) cb)))) type"
    by (simp add: r addListener_registers)
  also have "\<dots> = orig_listeners (orig_addListener em type (Shim (length (heap st)) (Suc 0) cb)) type @
       map (\<lambda>i. Shim (Suc (length (heap st)) + i) (Suc 0) (fst (regs ! i))) [0..<length regs]"
    using Cons.IH [of "snd (wrap_capture stack st)"] by (simp add: wrap_capture_length)
  finally show ?case
    unfolding m by (simp add: orig_listeners_def orig_addListener_def)
qed

lemma register_all_listeners:
  "listeners (snd (register_all wcs this type regs (st, em))) type = listeners em type @ map fst regs"
proof -
  have "map original_callback (map (\<lambda>i. Shim (length (heap st) + i) (Suc 0) (fst (regs ! i))) [0..<length regs])
      = map fst regs"
    by (rule nth_equalityI) simp_all
  then show ?thesis
    unfolding listeners_def register_all_raw by simp
qed

lemma find_wrapped_None:
  "(find_wrapped raw l = None) =
     (\<forall>w\<in>set raw. Func (original_callback w) \<noteq> l \<and> Func w \<noteq> l)"
  by (induction raw) auto

lemma find_wrapped_Some:
  "find_wrapped raw l = Some w \<Longrightarrow>
     \<exists>xs ys. raw = xs @ w # ys \<and> (\<forall>x\<in>set xs. Func (original_callback x) \<noteq> l \<and> Func x \<noteq> l)
        \<and> (Func (original_callback w) = l \<or> Func w = l)"
proof (induction raw)
  case Nil
  then show ?case by simp
next
  case (Cons a raw)
  show ?case
  proof (cases "Func (original_callback a) = l \<or> Func a = l")
    case True
    with Cons.prems have "a = w" by simp
    with True show ?thesis by (intro exI [of _ "[]"] exI [of _ raw]) simp
  next
    case False
    with Cons.prems have "find_wrapped raw l = Some w" by simp
    from Cons.IH [OF this] obtain xs ys where
      "raw = xs @ w # ys" "\<forall>x\<in>set xs. Func (original_callback x) \<noteq> l \<and> Func x \<noteq> l"
      "Func (original_callback w) = l \<or> Func w = l" by blast
    with False show ?thesis by (intro exI [of _ "a # xs"] exI [of _ ys]) simp
  qed
qed

lemma original_callback_Plain:
  "Func (original_callback w) = Func (Plain n) \<or> Func w = Func (Plain n) \<Longrightarrow>
   original_callback w = Plain n"
  by (cases w) auto

lemma remove_last_distinct: "distinct xs \<Longrightarrow> remove_last x xs = remove1 x xs"
  unfolding remove_last_def
  by (simp add: distinct_remove1_removeAll removeAll_filter_not_eq rev_filter)

lemma find_wrapped_exists:
  "Plain n \<in> set (map original_callback raw) \<Longrightarrow> \<exists>w. find_wrapped raw (Func (Plain n)) = Some w"
  using find_wrapped_None [of raw "Func (Plain n)"] by (cases "find_wrapped raw (Func (Plain n))") auto

lemma removeListener_raw_Some:
  "find_wrapped (orig_listeners em type) l = Some w \<Longrightarrow>
   orig_listeners (removeListener em type l) type = remove_last w (orig_listeners em type)"
  by (simp add: removeListener_def orig_removeListener_def orig_listeners_def)

lemma removeListener_plain:
  assumes d: "distinct (orig_listeners em type)"
    and m: "Plain n \<in> set (listeners em type)"
  shows "listeners (removeListener em type (Func (Plain n))) type = remove1 (Plain n) (listeners em type)"
    and "\<exists>w. original_callback w = Plain n \<and>
           orig_listeners (removeListener em type (Func (Plain n))) type = remove1 w (orig_listeners em type)
           \<and> w \<in> set (orig_listeners em type)
           \<and> w \<notin> set (orig_listeners (removeListener em type (Func (Plain n))) type)"
proof -
  let ?raw = "orig_listeners em type"
  from m obtain w where w: "find_wrapped ?raw (Func (Plain n)) = Some w"
    using find_wrapped_exists [of n ?raw] by (auto simp: listeners_def)
  from find_wrapped_Some [OF w] obtain xs ys where
    raw: "?raw = xs @ w # ys"
    and xs: "\<forall>x\<in>set xs. Func (original_callback x) \<noteq> Func (Plain n) \<and> Func x \<noteq> Func (Plain n)"
    and ww: "Func (original_callback w) = Func (Plain n) \<or> Func w = Func (Plain n)" by blast
  have ow: "original_callback w = Plain n" using ww by (rule original_callback_Plain)
  have wxs: "w \<notin> set xs" using d raw by auto
  have wys: "w \<notin> set ys" using d raw by auto
  have r1: "remove1 w ?raw = xs @ ys" using wxs by (simp add: raw remove1_append)
  have raw': "orig_listeners (removeListener em type (Func (Plain n))) type = xs @ ys"
    using removeListener_raw_Some [OF w] remove_last_distinct [OF d] r1 by simp
  have nx: "Plain n \<notin> set (map original_callback xs)" using xs by auto
  have "remove1 (Plain n) (map original_callback ?raw) = map original_callback xs @ map original_callback ys"
    unfolding raw using nx ow by (simp add: remove1_append)
  then show "listeners (removeListener em type (Func (Plain n))) type = remove1 (Plain n) (listeners em type)"
    unfolding listeners_def raw' by simp
  show "\<exists>w. original_callback w = Plain n \<and>
           orig_listeners (removeListener em type (Func (Plain n))) type = remove1 w (orig_listeners em type)
           \<and> w \<in> set (orig_listeners em type)
           \<and> w \<notin> set (orig_listeners (removeListener em type (Func (Plain n))) type)"
    using ow raw' r1 wxs wys raw by (intro exI [of _ w]) simp
qed

lemma register_all_distinct:
  "distinct (orig_listeners (snd (register_all wcs this type regs (st, new_EventEmitter))) type)"
  unfolding register_all_raw
  by (simp add: orig_listeners_def new_EventEmitter_def distinct_map inj_on_def)

text \<open>
  C10. When the function given to \<open>removeListener\<close> is neither a registered function nor the
  original callback of a registered shim for that event, nothing is removed: the call
  returns the emitter as it was, with the same listener array.
\<close>

theorem removeListener_no_match:
  "(\<forall>w\<in>set (orig_listeners em type). Func (original_callback w) \<noteq> listener \<and> Func w \<noteq> listener)
   \<Longrightarrow> removeListener em type listener = em
       \<and> orig_listeners (removeListener em type listener) type = orig_listeners em type"
  using find_wrapped_None [of "orig_listeners em type" listener]
  by (simp add: removeListener_def)

theorem removeListener_no_match_witness:
  "removeListener (orig_addListener new_EventEmitter ''foo'' (Shim 0 1 (Plain 1))) ''foo''
       (Func (Plain 2))
     = orig_addListener new_EventEmitter ''foo'' (Shim 0 1 (Plain 1))
   \<and> orig_listeners
         (removeListener (orig_addListener new_EventEmitter ''foo'' (Shim 0 1 (Plain 1))) ''foo''
            (Func (Plain 2))) ''foo''
     = [Shim 0 1 (Plain 1)]"
proof -
  have h: "\<forall>w\<in>set (orig_listeners (orig_addListener new_EventEmitter ''foo'' (Shim 0 1 (Plain 1))) ''foo'').
       Func (original_callback w) \<noteq> Func (Plain 2) \<and> Func w \<noteq> Func (Plain 2)"
    by (simp add: orig_listeners_def orig_addListener_def new_EventEmitter_def)
  have "orig_listeners (orig_addListener new_EventEmitter ''foo'' (Shim 0 1 (Plain 1))) ''foo''
          = [Shim 0 1 (Plain 1)]"
    by (simp add: orig_listeners_def orig_addListener_def new_EventEmitter_def)
  with removeListener_no_match [OF h] show ?thesis by simp
qed

lemma apply_fn_env_cong:
  "\<not> invokes f n \<Longrightarrow> (\<forall>m. m \<noteq> n \<longrightarrow> env m = env' m) \<Longrightarrow>
   apply_fn orig env f this args s = apply_fn orig env' f this args s"
  by (induction f arbitrary: s) simp_all

lemma call_listeners_env_cong:
  "(\<forall>f\<in>set fs. \<not> invokes f n) \<Longrightarrow> (\<forall>m. m \<noteq> n \<longrightarrow> env m = env' m) \<Longrightarrow>
   call_listeners orig env fs this args s = call_listeners orig env' fs this args s"
proof (induction fs arbitrary: s)
  case Nil
  then show ?case by simp
next
  case (Cons f fs)
  have "apply_fn orig env f this args s = apply_fn orig env' f this args s"
    using Cons.prems by (intro apply_fn_env_cong [of f n]) auto
  moreover have "\<And>s'. call_listeners orig env fs this args s' = call_listeners orig env' fs this args s'"
    using Cons.prems by (intro Cons.IH) auto
  ultimately show ?case by (simp split: prod.splits sum.splits)
qed

lemma invokes_original: "invokes w n = invokes (original_callback w) n"
  by (cases w) simp_all

lemma filter_single_remove1:
  "x \<in> set xs \<Longrightarrow> P x \<Longrightarrow> length (filter P xs) = 1 \<Longrightarrow> \<forall>y\<in>set (remove1 x xs). \<not> P y"
proof (induction xs)
  case Nil
  then show ?case by simp
next
  case (Cons a xs)
  show ?case
  proof (cases "a = x")
    case True
    with Cons.prems have "length (filter P xs) = 0" by simp
    then have "\<forall>y\<in>set xs. \<not> P y" by (simp add: filter_empty_conv)
    with True show ?thesis by simp
  next
    case False
    with Cons.prems have xin: "x \<in> set xs" by simp
    then have "filter P xs \<noteq> []" using Cons.prems(2) by (auto simp: filter_empty_conv)
    then have "0 < length (filter P xs)" by simp
    with Cons.prems(3) have na: "\<not> P a" and l: "length (filter P xs) = 1"
      by (auto split: if_splits)
    from Cons.IH [OF xin Cons.prems(2) l] na False show ?thesis by simp
  qed
qed

lemma count_list_remove1: "count_list (remove1 x xs) x = count_list xs x - 1"
  by (induction xs) auto

text \<open>
  C5, as the code has it. The emitter is one whose listeners for the event were all
  registered by calls \<open>emitter.on(type, callback)\<close> of the wrapped \<open>on\<close> (or
  \<open>addListener\<close>), starting from an emitter without listeners; \<open>regs\<close> lists these calls,
  each with its callback and the call sites of the caller. Then:

    \<^item> \<open>listeners\<close> returns the callbacks that were handed to \<open>on\<close>, in registration
      order, not the shims;

    \<^item> \<open>removeListener\<close> with such a callback, a function of the application and not itself
      a shim, removes one registration, the first shim whose original callback it is: the
      enumeration afterwards is the earlier one without the first occurrence of the
      callback;

    \<^item> so the callback is omitted afterwards when it was registered once, and still listed
      when it was registered more than once;

    \<^item> when the removed registration was the only registered callback that reaches the
      function (it was registered once, and no other registered callback is a shim around
      it), an emission afterwards does not depend on what the function does, that is, it is
      not called.

  Listeners that reached the emitter by another way (registered before the module was
  loaded or with \<open>prependListener\<close>, or the wrapper that the platform's \<open>once\<close> hands to
  \<open>on\<close> in place of the callback of the application) are not covered: for those,
  \<open>listeners\<close> and \<open>removeListener\<close> work on the function that is registered, which is
  not the callback of the application.
\<close>

theorem removeListener_removes_one_registration:
  "listeners (snd (register_all wcs this type regs (st, new_EventEmitter))) type = map fst regs
   \<and> (Plain n \<in> set (map fst regs) \<longrightarrow>
        listeners (removeListener (snd (register_all wcs this type regs (st, new_EventEmitter)))
                     type (Func (Plain n))) type
          = remove1 (Plain n) (map fst regs))
   \<and> (count_list (map fst regs) (Plain n) = 1 \<longrightarrow>
        Plain n \<notin> set (listeners (removeListener
                          (snd (register_all wcs this type regs (st, new_EventEmitter)))
                          type (Func (Plain n))) type))
   \<and> (1 < count_list (map fst regs) (Plain n) \<longrightarrow>
        Plain n \<in> set (listeners (removeListener
                          (snd (register_all wcs this type regs (st, new_EventEmitter)))
                          type (Func (Plain n))) type))
   \<and> (Plain n \<in> set (map fst regs) \<and> length (filter (\<lambda>cb. invokes cb n) (map fst regs)) = 1
        \<and> (\<forall>m. m \<noteq> n \<longrightarrow> env m = env' m) \<longrightarrow>
        emit orig env this type args
          (s, removeListener (snd (register_all wcs this type regs (st, new_EventEmitter)))
                type (Func (Plain n)))
        = emit orig env' this type args
          (s, removeListener (snd (register_all wcs this type regs (st, new_EventEmitter)))
                type (Func (Plain n))))"
proof -
  let ?em = "snd (register_all wcs this type regs (st, new_EventEmitter))"
  let ?em' = "removeListener ?em type (Func (Plain n))"
  have "listeners new_EventEmitter type = []"
    by (simp add: listeners_def orig_listeners_def new_EventEmitter_def)
  then have l: "listeners ?em type = map fst regs"
    by (simp add: register_all_listeners)
  have d: "distinct (orig_listeners ?em type)" by (rule register_all_distinct)
  have r: "Plain n \<in> set (map fst regs) \<Longrightarrow> listeners ?em' type = remove1 (Plain n) (map fst regs)"
    using removeListener_plain(1) [OF d, of n] l by simp
  have c: "count_list (map fst regs) (Plain n) = 1 \<Longrightarrow> Plain n \<notin> set (listeners ?em' type)"
  proof -
    assume c1: "count_list (map fst regs) (Plain n) = 1"
    then have "Plain n \<in> set (map fst regs)"
      using count_list_0_iff [of "map fst regs" "Plain n"] by auto
    then have "listeners ?em' type = remove1 (Plain n) (map fst regs)" by (rule r)
    moreover have "count_list (remove1 (Plain n) (map fst regs)) (Plain n) = 0"
      using c1 by (simp add: count_list_remove1)
    ultimately show ?thesis
      using count_list_0_iff [of "remove1 (Plain n) (map fst regs)" "Plain n"] by simp
  qed
  have k: "1 < count_list (map fst regs) (Plain n) \<Longrightarrow> Plain n \<in> set (listeners ?em' type)"
  proof -
    assume c2: "1 < count_list (map fst regs) (Plain n)"
    then have "Plain n \<in> set (map fst regs)"
      using count_list_0_iff [of "map fst regs" "Plain n"] by auto
    then have "listeners ?em' type = remove1 (Plain n) (map fst regs)" by (rule r)
    moreover have "count_list (remove1 (Plain n) (map fst regs)) (Plain n) \<noteq> 0"
      using c2 by (simp add: count_list_remove1)
    ultimately show ?thesis
      using count_list_0_iff [of "remove1 (Plain n) (map fst regs)" "Plain n"] by simp
  qed
  have e: "emit orig env this type args (s, ?em') = emit orig env' this type args (s, ?em')"
    if m: "Plain n \<in> set (map fst regs)"
      and one: "length (filter (\<lambda>cb. invokes cb n) (map fst regs)) = 1"
      and agree: "\<forall>m. m \<noteq> n \<longrightarrow> env m = env' m"
  proof -
    have "\<forall>y\<in>set (remove1 (Plain n) (map fst regs)). \<not> invokes y n"
      using filter_single_remove1 [OF m _ one] by simp
    then have "\<forall>y\<in>set (listeners ?em' type). \<not> invokes y n" using r [OF m] by simp
    then have "\<forall>f\<in>set (orig_listeners ?em' type). \<not> invokes f n"
      unfolding listeners_def using invokes_original by auto
    then show ?thesis
      unfolding emit_def using agree by (simp add: call_listeners_env_cong)
  qed
  from l r c k e show ?thesis by blast
qed

theorem removeListener_removes_one_registration_witness:
  "listeners (removeListener
      (snd (register_all id (Obj 0) ''foo'' [(Plain 1, []), (Plain 2, [])]
              (initial_State, new_EventEmitter)))
      ''foo'' (Func (Plain 1))) ''foo'' = [Plain 2]
   \<and> Plain 1 \<notin> set (listeners (removeListener
      (snd (register_all id (Obj 0) ''foo'' [(Plain 1, []), (Plain 2, [])]
              (initial_State, new_EventEmitter)))
      ''foo'' (Func (Plain 1))) ''foo'')
   \<and> emit orig_sample (env_const Undefined) (Obj 0) ''foo'' []
        (initial_State, removeListener
          (snd (register_all id (Obj 0) ''foo'' [(Plain 1, []), (Plain 2, [])]
              (initial_State, new_EventEmitter)))
          ''foo'' (Func (Plain 1)))
     = emit orig_sample ((env_const Undefined)(1 := env_throw Null 1)) (Obj 0) ''foo'' []
        (initial_State, removeListener
          (snd (register_all id (Obj 0) ''foo'' [(Plain 1, []), (Plain 2, [])]
              (initial_State, new_EventEmitter)))
          ''foo'' (Func (Plain 1)))
   \<and> listeners (removeListener
      (snd (register_all id (Obj 0) ''foo'' [(Plain 1, []), (Plain 2, []), (Plain 1, [])]
              (initial_State, new_EventEmitter)))
      ''foo'' (Func (Plain 1))) ''foo'' = [Plain 2, Plain 1]
   \<and> Plain 1 \<in> set (listeners (removeListener
      (snd (register_all id (Obj 0) ''foo'' [(Plain 1, []), (Plain 2, []), (Plain 1, [])]
              (initial_State, new_EventEmitter)))
      ''foo'' (Func (Plain 1))) ''foo'')"
  using removeListener_removes_one_registration
    [where wcs = id and this = "Obj 0" and type = "''foo''"
       and regs = "[(Plain 1, []), (Plain 2, [])]" and st = initial_State and n = 1
       and env = "env_const Undefined" and env' = "(env_const Undefined)(1 := env_throw Null 1)"
       and orig = orig_sample and args = "[]" and s = initial_State]
    removeListener_removes_one_registration
    [where wcs = id and this = "Obj 0" and type = "''foo''"
       and regs = "[(Plain 1, []), (Plain 2, []), (Plain 1, [])]" and st = initial_State
       and n = 1 and env = "env_const Undefined" and env' = "env_const Undefined"
       and orig = orig_sample and args = "[]" and s = initial_State]
  by simp

lemma register_twice:
  "orig_listeners (snd (register_all id (Obj 0) ''foo'' [(Plain 1, []), (Plain 1, [])]
      (initial_State, new_EventEmitter))) ''foo'' = [Shim 0 1 (Plain 1), Shim 1 1 (Plain 1)]"
  unfolding register_all_raw
  by (simp add: orig_listeners_def new_EventEmitter_def initial_State_def upt_conv_Cons del: upt_Suc)

text \<open>
  C5 as stated fails for a callback registered twice: after one \<open>removeListener\<close> the
  enumeration still lists it.
\<close>

theorem removeListener_duplicate_still_listed:
  "listeners (removeListener
      (snd (register_all id (Obj 0) ''foo'' [(Plain 1, []), (Plain 1, [])]
              (initial_State, new_EventEmitter)))
      ''foo'' (Func (Plain 1))) ''foo'' = [Plain 1]"
proof -
  let ?em = "snd (register_all id (Obj 0) ''foo'' [(Plain 1, []), (Plain 1, [])]
              (initial_State, new_EventEmitter))"
  have "find_wrapped (orig_listeners ?em ''foo'') (Func (Plain 1)) = Some (Shim 0 1 (Plain 1))"
    unfolding register_twice by simp
  from removeListener_raw_Some [OF this] show ?thesis
    unfolding listeners_def register_twice by (simp add: remove_last_def)
qed

section \<open>The shim\<close>

lemma shim_clears_current:
  "currentTraceError (fst (snd (apply_fn orig env (Shim t pos cb) this args s))) = None"
  by (simp split: prod.splits sum.splits thrown.splits)

lemma shim_returns:
  "apply_fn orig env cb this args ((fst s)\<lparr>currentTraceError := Some t\<rparr>, snd s) = (Inr v, s') \<Longrightarrow>
   apply_fn orig env (Shim t pos cb) this args s =
     (Inr v, ((fst s')\<lparr>currentTraceError := None\<rparr>, snd s'))"
  by (cases s') simp

lemma read_stack_ok:
  "e \<noteq> Undefined \<Longrightarrow> e \<noteq> Null \<Longrightarrow> \<exists>u. fst (read_stack orig e st) = Inr u"
  by (cases e) (simp_all add: read_stack_def split: prod.splits)

lemma shim_rethrows:
  "apply_fn orig env cb this args ((fst s)\<lparr>currentTraceError := Some t\<rparr>, snd s) = (Inl (Thrown e), s') \<Longrightarrow>
   e \<noteq> Undefined \<Longrightarrow> e \<noteq> Null \<Longrightarrow>
   fst (apply_fn orig env (Shim t pos cb) this args s) = Inl (Thrown e)"
  using read_stack_ok [of e orig "fst s'"]
  by (cases s') (auto split: prod.splits sum.splits)

text \<open>
  C3, as the code has it. A shim sets \<open>currentTraceError\<close> to its trace error before the
  callback runs (the callback starts in the state with the slot set) and sets it to \<open>null\<close>
  on every exit path, a normal return and a throw alike. The slot is cleared, not
  restored to the value it had before.
\<close>

theorem shim_sets_then_clears_current:
  "currentTraceError (fst (snd (apply_fn orig env (Shim t pos cb) this args s))) = None
   \<and> (apply_fn orig env cb this args ((fst s)\<lparr>currentTraceError := Some t\<rparr>, snd s) = (Inr v, s') \<longrightarrow>
        apply_fn orig env (Shim t pos cb) this args s =
          (Inr v, ((fst s')\<lparr>currentTraceError := None\<rparr>, snd s')))
   \<and> (apply_fn orig env cb this args ((fst s)\<lparr>currentTraceError := Some t\<rparr>, snd s) = (Inl (Thrown e), s')
        \<and> e \<noteq> Undefined \<and> e \<noteq> Null \<longrightarrow>
        fst (apply_fn orig env (Shim t pos cb) this args s) = Inl (Thrown e))"
proof (intro conjI impI)
  show "currentTraceError (fst (snd (apply_fn orig env (Shim t pos cb) this args s))) = None"
    by (rule shim_clears_current)
next
  assume "apply_fn orig env cb this args ((fst s)\<lparr>currentTraceError := Some t\<rparr>, snd s) = (Inr v, s')"
  then show "apply_fn orig env (Shim t pos cb) this args s =
          (Inr v, ((fst s')\<lparr>currentTraceError := None\<rparr>, snd s'))"
    by (rule shim_returns)
next
  assume "apply_fn orig env cb this args ((fst s)\<lparr>currentTraceError := Some t\<rparr>, snd s) = (Inl (Thrown e), s')
        \<and> e \<noteq> Undefined \<and> e \<noteq> Null"
  then show "fst (apply_fn orig env (Shim t pos cb) this args s) = Inl (Thrown e)"
    using shim_rethrows [where pos = pos] by blast
qed

theorem shim_sets_then_clears_current_witness:
  "apply_fn orig_sample env_current (Shim 5 0 (Plain 0)) Undefined []
      (initial_State\<lparr>currentTraceError := Some 3\<rparr>, ())
     = (Inr (Err 5), (initial_State\<lparr>currentTraceError := None\<rparr>, ()))
   \<and> fst (apply_fn orig_sample (env_throw (Str ''boom'')) (Shim 5 0 (Plain 0)) Undefined []
      (initial_State\<lparr>currentTraceError := Some 3\<rparr>, ())) = Inl (Thrown (Str ''boom''))"
proof -
  let ?s = "(initial_State\<lparr>currentTraceError := Some 3\<rparr>, ())"
  have a: "apply_fn orig_sample env_current (Plain 0) Undefined []
             ((fst ?s)\<lparr>currentTraceError := Some 5\<rparr>, snd ?s)
           = (Inr (Err 5), (initial_State\<lparr>currentTraceError := Some 5\<rparr>, ()))"
    by (simp add: env_current_def)
  have b: "apply_fn orig_sample (env_throw (Str ''boom'')) (Plain 0) Undefined []
             ((fst ?s)\<lparr>currentTraceError := Some 5\<rparr>, snd ?s)
           = (Inl (Thrown (Str ''boom'')), (initial_State\<lparr>currentTraceError := Some 5\<rparr>, ()))
         \<and> Str ''boom'' \<noteq> Undefined \<and> Str ''boom'' \<noteq> Null"
    by (simp add: env_throw_def)
  from shim_sets_then_clears_current
         [where orig = orig_sample and env = env_current and t = 5 and pos = 0 and cb = "Plain 0"
            and this = Undefined and args = "[]" and s = ?s and v = "Err 5"
            and s' = "(initial_State\<lparr>currentTraceError := Some 5\<rparr>, ())"] a
  have 1: "apply_fn orig_sample env_current (Shim 5 0 (Plain 0)) Undefined [] ?s
     = (Inr (Err 5), (initial_State\<lparr>currentTraceError := None\<rparr>, ()))"
    by simp
  from shim_sets_then_clears_current
         [where orig = orig_sample and env = "env_throw (Str ''boom'')" and t = 5 and pos = 0
            and cb = "Plain 0" and this = Undefined and args = "[]" and s = ?s
            and e = "Str ''boom''" 
            and s' = "(initial_State\<lparr>currentTraceError := Some 5\<rparr>, ())"] b
  have 2: "fst (apply_fn orig_sample (env_throw (Str ''boom'')) (Shim 5 0 (Plain 0)) Undefined [] ?s)
      = Inl (Thrown (Str ''boom''))"
    by blast
  from 1 2 show ?thesis by simp
qed

text \<open>
  C3 as stated fails: a shim that runs while trace error 0 is current leaves the slot empty,
  not holding 0 again.
\<close>

theorem shim_does_not_restore_outer:
  "currentTraceError nested_State = Some 0
   \<and> currentTraceError (fst (snd (apply_fn orig_sample (env_const Undefined) (Shim 1 0 (Plain 0))
        Undefined [] (nested_State, ())))) = None"
  using shim_clears_current [of orig_sample "env_const Undefined" 1 0 "Plain 0" Undefined "[]"
          "(nested_State, ())"]
  by (simp add: nested_State_def wrap_capture_current)

section \<open>Flattening: unfolding, frame and memoization\<close>

lemma pST_out_of_range:
  "length (heap st) \<le> error \<Longrightarrow> processStackTrace st error stack recursing = ([], st)"
  by (subst processStackTrace.simps) simp

lemma pST_cached:
  "error < length (heap st) \<Longrightarrow> cached_trace_prop (heap st ! error) = Some c \<Longrightarrow>
   processStackTrace st error stack recursing = (c, st)"
  by (subst processStackTrace.simps) simp

lemma pST_uncached:
  "error < length (heap st) \<Longrightarrow> cached_trace_prop (heap st ! error) = None \<Longrightarrow>
   processStackTrace st error stack recursing =
     (case parent_of (heap (pst_enter st error stack recursing)) error of
        None \<Rightarrow> (own_frames stack, pst_enter st error stack recursing)
      | Some p \<Rightarrow>
         (let r = processStackTrace (pst_enter st error stack recursing) p
                    (stack_of (heap (pst_enter st error stack recursing)) p) True
          in if fst r \<noteq> []
             then (own_frames stack @ [None] @ (if p = error then own_frames stack @ [None] else fst r),
                   (snd r)\<lparr>heap := set_cached (heap (snd r)) error
                      (own_frames stack @ [None] @ (if p = error then own_frames stack @ [None] else fst r))\<rparr>)
             else (own_frames stack, snd r)))"
  by (subst processStackTrace.simps)
     (simp add: pst_enter_def own_frames_def Let_def split: prod.splits option.splits)

lemma pST_induct [case_names step]:
  assumes "\<And>st error stack recursing.
     (\<And>p. error < length (heap st) \<Longrightarrow> cached_trace_prop (heap st ! error) = None \<Longrightarrow>
          parent_of (heap (pst_enter st error stack recursing)) error = Some p \<Longrightarrow>
          P (pst_enter st error stack recursing) p
            (stack_of (heap (pst_enter st error stack recursing)) p) True)
     \<Longrightarrow> P st error stack recursing"
  shows "P st error stack recursing"
proof (induction st error stack recursing rule: processStackTrace.induct)
  case (1 st error stack recursing)
  show ?case
  proof (rule assms)
    fix p
    assume a: "error < length (heap st)" "cached_trace_prop (heap st ! error) = None"
      "parent_of (heap (pst_enter st error stack recursing)) error = Some p"
    obtain xa y where xy: "push_frames 0 stack [] = (xa, y)" by (cases "push_frames 0 stack []")
    have e: "pst_enter st error stack recursing =
       st\<lparr>heap := (heap st)[error :=
         (if (case parent_prop ((heap st ! error)\<lparr>cached_trace_prop := Some y,
                stack_prop := if recursing then Some xa else stack_prop (heap st ! error)\<rparr>) of
                None \<Rightarrow> True | Some None \<Rightarrow> True | Some (Some p) \<Rightarrow> False) \<and> \<not> recursing
          then (heap st ! error)\<lparr>cached_trace_prop := Some y,
                stack_prop := if recursing then Some xa else stack_prop (heap st ! error)\<rparr>
                 \<lparr>parent_prop := Some (currentTraceError st)\<rparr>
          else (heap st ! error)\<lparr>cached_trace_prop := Some y,
                stack_prop := if recursing then Some xa else stack_prop (heap st ! error)\<rparr>)]\<rparr>"
      by (simp add: pst_enter_def own_frames_def xy Let_def)
    show "P (pst_enter st error stack recursing) p
            (stack_of (heap (pst_enter st error stack recursing)) p) True"
      using a(3) unfolding e
      by (intro "1.IH" [OF _ a(2) refl xy [symmetric] refl refl refl]) (use a in auto)
  qed
qed

lemma enter_length [simp]: "length (heap (pst_enter st e s r)) = length (heap st)"
  by (simp add: pst_enter_def Let_def)

lemma enter_fields [simp]:
  "options (pst_enter st e s r) = options st"
  "currentTraceError (pst_enter st e s r) = currentTraceError st"
  "ERROR_ID (pst_enter st e s r) = ERROR_ID st"
  by (simp_all add: pst_enter_def Let_def)

lemma enter_other: "x \<noteq> e \<Longrightarrow> heap (pst_enter st e s r) ! x = heap st ! x"
  by (simp add: pst_enter_def Let_def)

lemma enter_cached:
  "e < length (heap st) \<Longrightarrow> cached_trace_prop (heap (pst_enter st e s r) ! e) = Some (own_frames s)"
  by (simp add: pst_enter_def Let_def)

lemma enter_parent_rec: "parent_of (heap (pst_enter st e s True)) x = parent_of (heap st) x"
  by (cases "x = e") (simp_all add: pst_enter_def Let_def parent_of_def)

lemma enter_parent_other:
  "x \<noteq> e \<Longrightarrow> parent_of (heap (pst_enter st e s r)) x = parent_of (heap st) x"
  by (simp add: parent_of_def enter_other)

lemma enter_parent_top:
  "e < length (heap st) \<Longrightarrow> parent_of (heap st) e = None \<Longrightarrow>
   parent_of (heap (pst_enter st e s False)) e = currentTraceError st"
  by (auto simp: pst_enter_def Let_def parent_of_def split: option.splits)

lemma enter_stack_other:
  "x \<noteq> e \<Longrightarrow> stack_of (heap (pst_enter st e s r)) x = stack_of (heap st) x"
  by (simp add: stack_of_def enter_other)

lemma pST_frame:
  "length (heap (snd (processStackTrace st e s r))) = length (heap st)
   \<and> options (snd (processStackTrace st e s r)) = options st
   \<and> currentTraceError (snd (processStackTrace st e s r)) = currentTraceError st
   \<and> ERROR_ID (snd (processStackTrace st e s r)) = ERROR_ID st"
proof (induction st e s r rule: pST_induct)
  case (step st e s r)
  show ?case
  proof (cases "e < length (heap st)")
    case False
    then show ?thesis by (simp add: pST_out_of_range)
  next
    case True
    show ?thesis
    proof (cases "cached_trace_prop (heap st ! e)")
      case (Some c)
      with True show ?thesis by (simp add: pST_cached)
    next
      case None
      show ?thesis
      proof (cases "parent_of (heap (pst_enter st e s r)) e")
        case n: None
        then show ?thesis by (simp add: pST_uncached [OF True None])
      next
        case (Some p)
        from step [OF True None Some] show ?thesis
          by (simp add: pST_uncached [OF True None] Some Let_def set_cached_def)
      qed
    qed
  qed
qed

lemma pST_keeps_cached:
  "x < length (heap st) \<Longrightarrow> cached_trace_prop (heap st ! x) \<noteq> None \<Longrightarrow>
   heap (snd (processStackTrace st e s r)) ! x = heap st ! x"
proof (induction st e s r rule: pST_induct)
  case (step st e s r)
  show ?case
  proof (cases "e < length (heap st)")
    case False
    then show ?thesis by (simp add: pST_out_of_range)
  next
    case True
    show ?thesis
    proof (cases "cached_trace_prop (heap st ! e)")
      case (Some c)
      with True show ?thesis by (simp add: pST_cached)
    next
      case None
      with step.prems have xe: "x \<noteq> e" by auto
      have x1: "heap (pst_enter st e s r) ! x = heap st ! x" using xe by (rule enter_other)
      show ?thesis
      proof (cases "parent_of (heap (pst_enter st e s r)) e")
        case n: None
        then show ?thesis by (simp add: pST_uncached [OF True None] x1)
      next
        case (Some p)
        have "heap (snd (processStackTrace (pst_enter st e s r) p
                 (stack_of (heap (pst_enter st e s r)) p) True)) ! x = heap (pst_enter st e s r) ! x"
          using step.IH [OF True None Some] step.prems x1 by simp
        then show ?thesis
          using xe by (simp add: pST_uncached [OF True None] Some Let_def set_cached_def x1)
      qed
    qed
  qed
qed

lemma pST_result_cached:
  assumes "e < length (heap st)"
  shows "cached_trace_prop (heap (snd (processStackTrace st e s r)) ! e)
           = Some (fst (processStackTrace st e s r))"
proof (cases "cached_trace_prop (heap st ! e)")
  case (Some c)
  with assms show ?thesis by (simp add: pST_cached)
next
  case None
  let ?st1 = "pst_enter st e s r"
  show ?thesis
  proof (cases "parent_of (heap ?st1) e")
    case n: None
    then show ?thesis using assms by (simp add: pST_uncached [OF assms None] enter_cached)
  next
    case (Some p)
    let ?res = "processStackTrace ?st1 p (stack_of (heap ?st1) p) True"
    have l: "length (heap (snd ?res)) = length (heap st)" using pST_frame [of ?st1] by simp
    have k: "heap (snd ?res) ! e = heap ?st1 ! e"
      using assms by (intro pST_keeps_cached) (simp_all add: enter_cached)
    show ?thesis
      using assms l k
      by (simp add: pST_uncached [OF assms None] Some Let_def set_cached_def enter_cached)
  qed
qed

lemma pST_memo:
  assumes "e < length (heap st)"
  shows "processStackTrace (snd (processStackTrace st e s r)) e s' r'
           = (fst (processStackTrace st e s r), snd (processStackTrace st e s r))"
  using pST_result_cached [OF assms, of s r] assms pST_frame [of st e s r]
  by (intro pST_cached) simp_all

section \<open>The renderer of index.js\<close>

text \<open>
  C8. In \<open>index.js\<close> the hook returns \<open>options.formatStack(error, cache, sourceMap) || ''\<close>:
  when the configured renderer returns a falsy value for an error, the stack of that error
  is the empty string, a value and not an exception, and the state is the one the
  flattening leaves.
\<close>

theorem falsy_renderer_gives_empty_stack:
  "\<not> truthy (formatStack_field (options st) error (fst (processStackTrace st error stack False)))
   \<Longrightarrow> prepareStackTrace_index st error stack = (Str [], snd (processStackTrace st error stack False))"
proof -
  assume a: "\<not> truthy (formatStack_field (options st) error (fst (processStackTrace st error stack False)))"
  obtain cache st1 where r: "processStackTrace st error stack False = (cache, st1)"
    by (cases "processStackTrace st error stack False")
  have "options st1 = options st" using pST_frame [of st error stack False] r by simp
  with a r show ?thesis by (simp add: prepareStackTrace_index_def)
qed

theorem falsy_renderer_gives_empty_stack_witness:
  "fst (prepareStackTrace_index (snd (new_Error [user_frame] noop_State)) 0 [user_frame]) = Str []"
proof -
  have "options (snd (new_Error [user_frame] noop_State)) = options noop_State"
    by (simp add: new_Error_def)
  then have "\<not> truthy (formatStack_field (options (snd (new_Error [user_frame] noop_State))) 0
      (fst (processStackTrace (snd (new_Error [user_frame] noop_State)) 0 [user_frame] False)))"
    by (simp add: noop_State_def formatStack_noop_def)
  from falsy_renderer_gives_empty_stack [OF this] show ?thesis by simp
qed

section \<open>The frames of one trace error\<close>

lemmas push_frames_unfold = push_frames.simps [unfolded One_nat_def]

lemma push_frames_end: "\<not> i < length stack \<Longrightarrow> push_frames i stack cache = (stack, cache)"
  by (subst push_frames_unfold) simp

lemma push_frames_ext:
  "i < length stack \<Longrightarrow> fileName (stack ! i) \<noteq> this_filename \<Longrightarrow>
   push_frames i stack cache = push_frames (Suc i) stack (cache @ [Some (stack ! i)])"
  by (subst push_frames_unfold) simp

lemma push_frames_patch:
  "i < length stack \<Longrightarrow> \<not> fileName (stack ! i) \<noteq> this_filename \<Longrightarrow>
   0 < i \<and> no_method (stack ! (i - Suc 0)) \<Longrightarrow>
   push_frames i stack cache =
     push_frames (Suc i) (stack[i - Suc 0 := (stack ! (i - Suc 0))\<lparr>methodName := methodName (stack ! i)\<rparr>])
       (if fileName (stack ! (i - Suc 0)) \<noteq> this_filename
        then butlast cache @ [Some ((stack ! (i - Suc 0))\<lparr>methodName := methodName (stack ! i)\<rparr>)]
        else cache)"
  by (subst push_frames_unfold) (simp add: Let_def)

lemma push_frames_skip:
  "i < length stack \<Longrightarrow> \<not> fileName (stack ! i) \<noteq> this_filename \<Longrightarrow>
   \<not> (0 < i \<and> no_method (stack ! (i - Suc 0))) \<Longrightarrow>
   push_frames i stack cache = push_frames (Suc i) stack cache"
  by (subst push_frames_unfold) auto

lemma push_frames_no_marker:
  "None \<notin> set cache \<Longrightarrow> None \<notin> set (snd (push_frames i stack cache))"
proof (induction i stack cache rule: push_frames.induct)
  case (1 i stack cache)
  note IH = "1.IH" [unfolded One_nat_def]
  show ?case
  proof (cases "i < length stack")
    case False
    then show ?thesis using "1.prems" by (simp add: push_frames_end)
  next
    case True
    show ?thesis
    proof (cases "fileName (stack ! i) \<noteq> this_filename")
      case e: True
      have "None \<notin> set (snd (push_frames (Suc i) stack (cache @ [Some (stack ! i)])))"
        using "1.prems" by (intro IH(1) [OF True e]) simp
      then show ?thesis by (simp add: push_frames_ext [OF True e])
    next
      case e: False
      show ?thesis
      proof (cases "0 < i \<and> no_method (stack ! (i - Suc 0))")
        case m: True
        let ?x = "(stack ! (i - Suc 0))\<lparr>methodName := methodName (stack ! i)\<rparr>"
        let ?c = "if fileName (stack ! (i - Suc 0)) \<noteq> this_filename then butlast cache @ [Some ?x] else cache"
        have "None \<notin> set ?c" using "1.prems" by (auto dest: in_set_butlastD)
        then have "None \<notin> set (snd (push_frames (Suc i) (stack[i - Suc 0 := ?x]) ?c))"
          by (intro IH(2) [OF True e m refl])
        then show ?thesis unfolding push_frames_patch [OF True e m] .
      next
        case m: False
        have "None \<notin> set (snd (push_frames (Suc i) stack cache))"
          using "1.prems" by (intro IH(3) [OF True e m])
        then show ?thesis unfolding push_frames_skip [OF True e m] .
      qed
    qed
  qed
qed

lemma push_frames_length:
  "length cache + length (filter external (drop i stack)) \<le> length (snd (push_frames i stack cache))"
proof (induction i stack cache rule: push_frames.induct)
  case (1 i stack cache)
  note IH = "1.IH" [unfolded One_nat_def]
  show ?case
  proof (cases "i < length stack")
    case False
    then show ?thesis by (simp add: push_frames_end)
  next
    case True
    then have d: "drop i stack = stack ! i # drop (Suc i) stack" by (simp add: Cons_nth_drop_Suc)
    show ?thesis
    proof (cases "fileName (stack ! i) \<noteq> this_filename")
      case e: True
      have "length (cache @ [Some (stack ! i)]) + length (filter external (drop (Suc i) stack))
            \<le> length (snd (push_frames (Suc i) stack (cache @ [Some (stack ! i)])))"
        by (rule IH(1) [OF True e])
      moreover have "external (stack ! i)" using e by (simp add: external_def)
      ultimately show ?thesis by (simp add: push_frames_ext [OF True e] d)
    next
      case e: False
      show ?thesis
      proof (cases "0 < i \<and> no_method (stack ! (i - Suc 0))")
        case m: True
        let ?x = "(stack ! (i - Suc 0))\<lparr>methodName := methodName (stack ! i)\<rparr>"
        let ?c = "if fileName (stack ! (i - Suc 0)) \<noteq> this_filename then butlast cache @ [Some ?x] else cache"
        have lc: "length cache \<le> length ?c" by (cases cache) auto
        have dd: "drop (Suc i) (stack[i - Suc 0 := ?x]) = drop (Suc i) stack"
          using m by simp
        have "length ?c + length (filter external (drop (Suc i) (stack[i - Suc 0 := ?x])))
            \<le> length (snd (push_frames (Suc i) (stack[i - Suc 0 := ?x]) ?c))"
          by (rule IH(2) [OF True e m refl])
        then have "length cache + length (filter external (drop (Suc i) stack))
            \<le> length (snd (push_frames (Suc i) (stack[i - Suc 0 := ?x]) ?c))"
          unfolding dd using lc by linarith
        moreover have "\<not> external (stack ! i)" using e by (simp add: external_def)
        ultimately show ?thesis
          unfolding push_frames_patch [OF True e m] by (simp add: d)
      next
        case m: False
        have "length cache + length (filter external (drop (Suc i) stack))
            \<le> length (snd (push_frames (Suc i) stack cache))"
          by (rule IH(3) [OF True e m])
        moreover have "\<not> external (stack ! i)" using e by (simp add: external_def)
        ultimately show ?thesis
          unfolding push_frames_skip [OF True e m] by (simp add: d)
      qed
    qed
  qed
qed

lemma own_frames_no_marker: "None \<notin> set (own_frames stack)"
  unfolding own_frames_def by (rule push_frames_no_marker) simp

lemma own_frames_nonempty: "\<exists>f\<in>set stack. external f \<Longrightarrow> own_frames stack \<noteq> []"
proof -
  assume "\<exists>f\<in>set stack. external f"
  then have "filter external stack \<noteq> []" by (simp add: filter_empty_conv)
  then have "0 < length (filter external (drop 0 stack))" by simp
  with push_frames_length [of "[]" 0 stack] show ?thesis
    unfolding own_frames_def by auto
qed

lemma own_frames_count: "count_list (own_frames stack) None = 0"
  using own_frames_no_marker [of stack] by (simp add: count_list_0_iff)

section \<open>Lines and separators\<close>

lemma split_nl_nonempty: "split_nl s \<noteq> []"
  by (induction s) (auto split: list.splits)

lemma split_nl_no_newline: "l \<in> set (split_nl s) \<Longrightarrow> newline \<notin> set l"
proof (induction s arbitrary: l)
  case Nil
  then show ?case by simp
next
  case (Cons c cs)
  show ?case
  proof (cases "c = newline")
    case True
    with Cons show ?thesis by auto
  next
    case False
    obtain x xs where x: "split_nl cs = x # xs"
      using split_nl_nonempty [of cs] by (cases "split_nl cs") auto
    with Cons False show ?thesis by auto
  qed
qed

lemma split_nl_plain: "newline \<notin> set l \<Longrightarrow> split_nl l = [l]"
  by (induction l) auto

lemma split_nl_line: "newline \<notin> set l \<Longrightarrow> split_nl (l @ newline # s) = l # split_nl s"
  by (induction l) auto

lemma split_join:
  "ls \<noteq> [] \<Longrightarrow> \<forall>l\<in>set ls. newline \<notin> set l \<Longrightarrow> split_nl (join_nl ls) = ls"
proof (induction ls rule: join_nl.induct)
  case 1
  then show ?case by simp
next
  case (2 l)
  then show ?case by (simp add: split_nl_plain)
next
  case (3 l v va)
  then show ?case by (simp add: split_nl_line)
qed

lemma strip_separators_length:
  "length (fst (strip_separators i c seps)) = length seps + count_list (take i c) None"
proof (induction i arbitrary: c seps)
  case 0
  then show ?case by simp
next
  case (Suc i)
  show ?case
  proof (cases "i < length c")
    case False
    then show ?thesis using Suc.IH [of c seps] by simp
  next
    case True
    then have t: "take (Suc i) c = take i c @ [c ! i]" by (simp add: take_Suc_conv_app_nth)
    show ?thesis
    proof (cases "c ! i = None")
      case n: True
      have "take i (take i c @ drop (Suc i) c) = take i c" using True by simp
      then show ?thesis
        using Suc.IH [of "take i c @ drop (Suc i) c" "i # seps"] True n by (simp add: t)
    next
      case n: False
      then have "(c ! i = None) = False" by simp
      then show ?thesis using Suc.IH [of c seps] True by (simp add: t del: not_None_eq)
    qed
  qed
qed

lemma count_list_splice: "count_list (splice_in k x xs) x = Suc (count_list xs x)"
proof -
  have "count_list xs x = count_list (take k xs) x + count_list (drop k xs) x"
    using count_list_append [of "take k xs" "drop k xs" x] by simp
  then show ?thesis by (simp add: splice_in_def)
qed

lemma insert_separators_count:
  "count_list (insert_separators tok seps lines) tok = count_list lines tok + length seps"
  unfolding insert_separators_def
  by (induction seps arbitrary: lines) (simp_all add: count_list_splice)

lemma insert_separators_lines:
  "newline \<notin> set tok \<Longrightarrow> \<forall>l\<in>set lines. newline \<notin> set l \<Longrightarrow>
   \<forall>l\<in>set (insert_separators tok seps lines). newline \<notin> set l"
  unfolding insert_separators_def
proof (induction seps arbitrary: lines)
  case Nil
  then show ?case by simp
next
  case (Cons a seps)
  have "\<forall>l\<in>set (splice_in (Suc a) tok lines). newline \<notin> set l"
    using Cons.prems by (auto simp: splice_in_def dest: in_set_takeD in_set_dropD)
  with Cons.IH [OF Cons.prems(1)] show ?case by simp
qed

lemma insert_separators_nonempty: "lines \<noteq> [] \<Longrightarrow> insert_separators tok seps lines \<noteq> []"
  unfolding insert_separators_def
  by (induction seps arbitrary: lines) (simp_all add: splice_in_def)

lemma separators_in_rendered:
  assumes "newline \<notin> set tok" and "tok \<notin> set (split_nl rendered)"
  shows "separators_in tok (join_nl (insert_separators tok seps (split_nl rendered))) = length seps"
proof -
  let ?lines = "insert_separators tok seps (split_nl rendered)"
  have "\<forall>l\<in>set ?lines. newline \<notin> set l"
    using assms(1) split_nl_no_newline by (intro insert_separators_lines) auto
  moreover have "?lines \<noteq> []" by (intro insert_separators_nonempty split_nl_nonempty)
  ultimately have "split_nl (join_nl ?lines) = ?lines" by (intro split_join)
  moreover have "count_list (split_nl rendered) tok = 0"
    using assms(2) by (simp add: count_list_0_iff)
  ultimately show ?thesis by (simp add: separators_in_def insert_separators_count)
qed

section \<open>Chains of trace errors\<close>

lemma parent_of_append: "x < length h \<Longrightarrow> parent_of (h @ [ob]) x = parent_of h x"
  by (simp add: parent_of_def nth_append)

lemma parent_of_new:
  "parent_of (h @ [ob]) (length h) = (case parent_prop ob of Some (Some p) \<Rightarrow> Some p | _ \<Rightarrow> None)"
  by (simp add: parent_of_def)

lemma parent_of_delete:
  "parent_of (delete_parent h d) x = (if x = d then None else parent_of h x)"
  by (auto simp: parent_of_def delete_parent_def)

lemma delete_length [simp]: "length (delete_parent h d) = length h"
  by (simp add: delete_parent_def)

lemma is_chain_Cons:
  "is_chain h (r # rs) =
     (r < length h \<and> (case rs of [] \<Rightarrow> parent_of h r = None
                        | p # ps \<Rightarrow> parent_of h r = Some p \<and> is_chain h rs))"
  by (cases rs) auto

lemma is_chain_lt: "is_chain h rs \<Longrightarrow> x \<in> set rs \<Longrightarrow> x < length h"
  by (induction h rs rule: is_chain.induct) auto

lemma is_chain_cong:
  "\<forall>x\<in>set rs. parent_of h' x = parent_of h x \<Longrightarrow> \<forall>x\<in>set rs. (x < length h') = (x < length h) \<Longrightarrow>
   is_chain h' rs = is_chain h rs"
  by (induction h rs rule: is_chain.induct) auto

lemma limit_walk_None: "limit_walk h None count = None"
  by (subst limit_walk.simps) simp

lemma limit_walk_Some:
  "limit_walk h (Some p) count = (if count > 1 then limit_walk h (parent_of h p) (count - 1) else Some p)"
  by (subst limit_walk.simps) simp

lemma limit_walk_chain:
  "is_chain h (c0 # cs) \<Longrightarrow>
   limit_walk h (Some c0) count =
     (if count \<le> 1 then Some c0
      else if nat (count - 1) < Suc (length cs) then Some ((c0 # cs) ! nat (count - 1))
      else None)"
proof (induction cs arbitrary: c0 count)
  case Nil
  then show ?case by (simp add: limit_walk_Some limit_walk_None)
next
  case (Cons p ps)
  then have p: "parent_of h c0 = Some p" and c: "is_chain h (p # ps)" by simp_all
  show ?case
  proof (cases "count > 1")
    case False
    then show ?thesis by (simp add: limit_walk_Some)
  next
    case True
    then have n: "nat (count - 1) = Suc (nat (count - 1 - 1))" by simp
    show ?thesis
      using True Cons.IH [OF c, of "count - 1"]
      by (subst limit_walk_Some) (auto simp: p n)
  qed
qed

lemma delete_chain:
  "is_chain h c \<Longrightarrow> distinct c \<Longrightarrow> k < length c \<Longrightarrow>
   is_chain (delete_parent h (c ! k)) (take (Suc k) c)"
proof (induction c arbitrary: k)
  case Nil
  then show ?case by simp
next
  case (Cons r rs)
  show ?case
  proof (cases k)
    case 0
    with Cons.prems show ?thesis by (simp add: is_chain_Cons parent_of_delete)
  next
    case (Suc k')
    with Cons.prems obtain p ps where rs: "rs = p # ps" by (cases rs) auto
    from Cons.prems rs have c: "is_chain h rs" and par: "parent_of h r = Some p" and r: "r < length h"
      by simp_all
    from Cons.prems Suc have k': "k' < length rs" by simp
    have ne: "rs ! k' \<noteq> r" using Cons.prems(2) k' by auto
    have "is_chain (delete_parent h (rs ! k')) (take (Suc k') rs)"
      using Cons.IH [OF c _ k'] Cons.prems(2) by simp
    then show ?thesis
      using Suc rs par r ne by (simp add: parent_of_delete)
  qed
qed

lemma wrap_capture_heap:
  "\<exists>ob. parent_prop ob = Some (currentTraceError st) \<and> stack_prop ob = Some stack
        \<and> cached_trace_prop ob = None
        \<and> heap (snd (wrap_capture stack st)) =
            (if 0 < asyncTraceLimit_field (options st)
             then (case limit_walk (heap st @ [ob]) (Some (length (heap st)))
                          (asyncTraceLimit_field (options st) - 1) of
                     Some previous \<Rightarrow> delete_parent (heap st @ [ob]) previous
                   | None \<Rightarrow> heap st @ [ob])
             else heap st @ [ob])"
  unfolding wrap_capture_def Let_def
  by (rule exI [of _ "\<lparr> captured = stack, stack_memo = Some RawFrames,
                 id_prop = Some (ERROR_ID st),
                 parent_prop = Some (currentTraceError st),
                 stack_prop = Some stack,
                 trace_count_prop =
                   (case currentTraceError st of
                      Some c \<Rightarrow> (if c < length (heap st)
                                 then map_option Suc (trace_count_prop (heap st ! c)) else None)
                    | None \<Rightarrow> Some 1),
                 cached_trace_prop = None \<rparr>"]) (simp split: option.splits)

lemma delete_cached [simp]:
  "cached_trace_prop (delete_parent h d ! x) = cached_trace_prop (h ! x)"
  by (cases "x = d"; cases "d < length h") (simp_all add: delete_parent_def list_update_beyond)

lemma delete_stack_of [simp]: "stack_of (delete_parent h d) x = stack_of h x"
  by (cases "x = d"; cases "d < length h") (simp_all add: delete_parent_def stack_of_def list_update_beyond)

lemma kept_Cons: "\<exists>rest. kept L (t # rs) = t # rest"
proof (cases "0 < L")
  case False
  then show ?thesis by (simp add: kept_def)
next
  case True
  obtain n where "nat (max 1 (L - 1)) = Suc n" by (cases "nat (max 1 (L - 1))") auto
  with True show ?thesis by (simp add: kept_def)
qed

lemma limit_chain:
  fixes L :: int
  assumes c: "is_chain h (c0 # cs)" and d: "distinct (c0 # cs)"
  defines "H \<equiv> (if 0 < L
             then (case limit_walk h (Some c0) (L - 1) of
                     Some previous \<Rightarrow> delete_parent h previous
                   | None \<Rightarrow> h)
             else h)"
  shows "is_chain H (kept L (c0 # cs))" and "length H = length h"
    and "cached_trace_prop (H ! x) = cached_trace_prop (h ! x)" and "stack_of H x = stack_of h x"
proof -
  show "length H = length h" by (simp add: H_def split: option.splits)
  show "cached_trace_prop (H ! x) = cached_trace_prop (h ! x)"
    by (simp add: H_def split: option.splits)
  show "stack_of H x = stack_of h x" by (simp add: H_def split: option.splits)
  show "is_chain H (kept L (c0 # cs))"
  proof (cases "0 < L")
    case False
    then show ?thesis using c by (simp add: H_def kept_def)
  next
    case True
    note w = limit_walk_chain [OF c, of "L - 1"]
    show ?thesis
    proof (cases "L - 1 \<le> 1")
      case l: True
      then have "H = delete_parent h ((c0 # cs) ! 0)" using True w by (simp add: H_def)
      moreover have "nat (max 1 (L - 1)) = Suc 0" using True l by (auto simp: max_def)
      then have "kept L (c0 # cs) = take (Suc 0) (c0 # cs)"
        using True by (simp add: kept_def)
      ultimately show ?thesis using delete_chain [OF c d, of 0] by simp
    next
      case l: False
      let ?k = "nat (L - 1 - 1)"
      have m: "nat (max 1 (L - 1)) = Suc ?k" using l by (simp add: max_def)
      show ?thesis
      proof (cases "?k < length (c0 # cs)")
        case k: True
        then have "H = delete_parent h ((c0 # cs) ! ?k)" using True l w by (simp add: H_def)
        moreover have "kept L (c0 # cs) = take (Suc ?k) (c0 # cs)"
          using True m by (simp add: kept_def del: take_Suc_Cons)
        ultimately show ?thesis using delete_chain [OF c d k] by simp
      next
        case k: False
        then have "H = h" using True l w by (simp add: H_def)
        moreover have "kept L (c0 # cs) = c0 # cs"
          using True m k by (simp add: kept_def del: take_Suc_Cons)
        ultimately show ?thesis using c by simp
      qed
    qed
  qed
qed

lemma capture_chain:
  assumes ok: "chain_ok st rs" and ext: "\<exists>f\<in>set stack. external f"
  shows "chain_ok ((snd (wrap_capture stack st))\<lparr>currentTraceError := Some (fst (wrap_capture stack st))\<rparr>)
           (kept (asyncTraceLimit_field (options st)) (length (heap st) # rs))"
proof -
  let ?t = "length (heap st)"
  let ?L = "asyncTraceLimit_field (options st)"
  let ?st' = "(snd (wrap_capture stack st))\<lparr>currentTraceError := Some (fst (wrap_capture stack st))\<rparr>"
  from wrap_capture_heap [of st stack] obtain ob where
    ob: "parent_prop ob = Some (currentTraceError st)" "stack_prop ob = Some stack"
        "cached_trace_prop ob = None"
    and H: "heap (snd (wrap_capture stack st)) =
            (if 0 < ?L
             then (case limit_walk (heap st @ [ob]) (Some ?t) (?L - 1) of
                     Some previous \<Rightarrow> delete_parent (heap st @ [ob]) previous
                   | None \<Rightarrow> heap st @ [ob])
             else heap st @ [ob])"
    by blast
  let ?h1 = "heap st @ [ob]"
  from ok have lt: "\<forall>x\<in>set rs. x < ?t" and drs: "distinct rs"
    and unc: "\<forall>x\<in>set rs. cached_trace_prop (heap st ! x) = None"
    and own: "\<forall>x\<in>set rs. own_frames (stack_of (heap st) x) \<noteq> []"
    by (simp_all add: chain_ok_def)
  have d: "distinct (?t # rs)" using lt drs by auto
  have c: "is_chain ?h1 (?t # rs)"
  proof (cases rs)
    case Nil
    with ok have "currentTraceError st = None" by (simp add: chain_ok_def)
    then show ?thesis using Nil by (simp add: parent_of_new ob)
  next
    case (Cons r rest)
    with ok have cur: "currentTraceError st = Some r" and ch: "is_chain (heap st) rs"
      by (simp_all add: chain_ok_def)
    have "is_chain ?h1 rs = is_chain (heap st) rs"
      using lt by (intro is_chain_cong) (auto simp: parent_of_append)
    with ch cur Cons show ?thesis by (simp add: is_chain_Cons parent_of_new ob)
  qed
  note lc = limit_chain [OF c d, of ?L, folded H]
  have hd: "heap ?st' = heap (snd (wrap_capture stack st))" by simp
  obtain rest where k: "kept ?L (?t # rs) = ?t # rest" using kept_Cons by blast
  have sub: "set (kept ?L (?t # rs)) \<subseteq> set (?t # rs)"
    by (auto simp: kept_def dest: in_set_takeD)
  have dk: "distinct (kept ?L (?t # rs))" using d by (simp add: kept_def del: distinct.simps)
  have each: "x < length (heap ?st') \<and> cached_trace_prop (heap ?st' ! x) = None
                \<and> own_frames (stack_of (heap ?st') x) \<noteq> []" if "x \<in> set (?t # rs)" for x
  proof (cases "x = ?t")
    case True
    have "stack_of ?h1 ?t = stack" by (simp add: stack_of_def ob)
    then show ?thesis
      using True ob own_frames_nonempty [OF ext] by (simp add: hd lc)
  next
    case False
    with that have xr: "x \<in> set rs" by simp
    then have x: "x < ?t" using lt by simp
    then have "stack_of ?h1 x = stack_of (heap st) x" by (simp add: stack_of_def nth_append)
    then show ?thesis using x xr unc own by (simp add: hd lc nth_append)
  qed
  have cur': "currentTraceError ?st' = Some ?t" by (simp add: wrap_capture_fst)
  show ?thesis
    unfolding chain_ok_def
  proof (intro conjI)
    show "case kept ?L (?t # rs) of [] \<Rightarrow> currentTraceError ?st' = None
          | r # rest \<Rightarrow> currentTraceError ?st' = Some r \<and> is_chain (heap ?st') (kept ?L (?t # rs))"
      using lc(1) cur' by (simp add: k [symmetric] hd) (simp add: k)
    show "distinct (kept ?L (?t # rs))" by (rule dk)
    show "\<forall>x\<in>set (kept ?L (?t # rs)). x < length (heap ?st') \<and> cached_trace_prop (heap ?st' ! x) = None
                \<and> own_frames (stack_of (heap ?st') x) \<noteq> []"
      using each sub by blast
  qed
qed

lemma flatten_chain:
  "is_chain (heap st) (r # rs) \<Longrightarrow> distinct (r # rs) \<Longrightarrow>
   \<forall>x\<in>set (r # rs). cached_trace_prop (heap st ! x) = None \<Longrightarrow>
   \<forall>x\<in>set (r # rs). own_frames (stack_of (heap st) x) \<noteq> [] \<Longrightarrow>
   count_list (fst (processStackTrace st r (stack_of (heap st) r) True)) None = length rs
   \<and> fst (processStackTrace st r (stack_of (heap st) r) True) \<noteq> []"
proof (induction rs arbitrary: r st)
  case Nil
  then have r: "r < length (heap st)" and u: "cached_trace_prop (heap st ! r) = None"
    and p: "parent_of (heap st) r = None" by simp_all
  show ?case
    using Nil.prems(4)
    by (simp add: pST_uncached [OF r u] enter_parent_rec p own_frames_count)
next
  case (Cons p ps)
  let ?s = "stack_of (heap st) r"
  let ?st1 = "pst_enter st r ?s True"
  from Cons.prems have r: "r < length (heap st)" and u: "cached_trace_prop (heap st ! r) = None"
    and par: "parent_of (heap st) r = Some p" and ch: "is_chain (heap st) (p # ps)"
    and ne: "\<forall>x\<in>set (p # ps). x \<noteq> r" and pr: "p \<noteq> r"
    by auto
  have ch1: "is_chain (heap ?st1) (p # ps)"
    using ch is_chain_cong [of "p # ps" "heap ?st1" "heap st"] by (simp add: enter_parent_rec)
  have u1: "\<forall>x\<in>set (p # ps). cached_trace_prop (heap ?st1 ! x) = None"
    using Cons.prems(3) ne by (simp add: enter_other)
  have o1: "\<forall>x\<in>set (p # ps). own_frames (stack_of (heap ?st1) x) \<noteq> []"
    using Cons.prems(4) ne by (simp add: enter_stack_other)
  have d1: "distinct (p # ps)" using Cons.prems(2) by simp
  note IH = Cons.IH [OF ch1 d1 u1 o1]
  show ?case
    using IH pr
    by (simp add: pST_uncached [OF r u] enter_parent_rec par Let_def own_frames_count)
qed

lemma flatten_top:
  assumes e: "e < length (heap st)" and u: "cached_trace_prop (heap st ! e) = None"
    and p: "parent_of (heap st) e = None"
    and ok: "chain_ok st rs" and ne: "e \<notin> set rs"
  shows "count_list (fst (processStackTrace st e frames False)) None = length rs"
proof (cases rs)
  case Nil
  with ok have "currentTraceError st = None" by (simp add: chain_ok_def)
  then show ?thesis
    using Nil by (simp add: pST_uncached [OF e u] enter_parent_top [OF e p] own_frames_count)
next
  case (Cons t rest)
  let ?st1 = "pst_enter st e frames False"
  from ok Cons have cur: "currentTraceError st = Some t" and ch: "is_chain (heap st) (t # rest)"
    and d: "distinct (t # rest)"
    and un: "\<forall>x\<in>set (t # rest). cached_trace_prop (heap st ! x) = None"
    and ow: "\<forall>x\<in>set (t # rest). own_frames (stack_of (heap st) x) \<noteq> []"
    by (simp_all add: chain_ok_def)
  from ne Cons have nx: "\<forall>x\<in>set (t # rest). x \<noteq> e" by auto
  then have te: "t \<noteq> e" by simp
  have ch1: "is_chain (heap ?st1) (t # rest)"
    using ch nx is_chain_cong [of "t # rest" "heap ?st1" "heap st"]
    by (simp add: enter_parent_other)
  have u1: "\<forall>x\<in>set (t # rest). cached_trace_prop (heap ?st1 ! x) = None"
    using un nx by (simp add: enter_other)
  have o1: "\<forall>x\<in>set (t # rest). own_frames (stack_of (heap ?st1) x) \<noteq> []"
    using ow nx by (simp add: enter_stack_other)
  note f = flatten_chain [OF ch1 d u1 o1]
  show ?thesis
    using f te Cons
    by (simp add: pST_uncached [OF e u] enter_parent_top [OF e p] cur Let_def own_frames_count)
qed

lemma chain_ok_new_Error:
  assumes "chain_ok st rs"
  shows "chain_ok (snd (new_Error frames st)) rs"
proof -
  let ?h = "heap st"
  let ?h' = "heap (snd (new_Error frames st))"
  from assms have lt: "\<forall>x\<in>set rs. x < length ?h" by (simp add: chain_ok_def)
  obtain ob where h': "?h' = ?h @ [ob]" by (simp add: new_Error_def)
  have c: "is_chain ?h' rs = is_chain ?h rs"
    using lt by (intro is_chain_cong) (auto simp: h' parent_of_append)
  have s: "\<forall>x\<in>set rs. stack_of ?h' x = stack_of ?h x \<and> ?h' ! x = ?h ! x"
    using lt by (auto simp: h' stack_of_def nth_append)
  have cur: "currentTraceError (snd (new_Error frames st)) = currentTraceError st"
    by (simp add: new_Error_def)
  show ?thesis
    using assms c s lt unfolding chain_ok_def cur
    by (auto simp: h' split: list.splits)
qed

lemma prepare_count:
  assumes e: "e < length (heap st)" and u: "cached_trace_prop (heap st ! e) = None"
    and p: "parent_of (heap st) e = None"
    and ok: "chain_ok st rs" and ne: "e \<notin> set rs"
    and nl: "newline \<notin> set (emptyFrame_field (options st))"
    and tok: "\<forall>err fs. emptyFrame_field (options st) \<notin> set (split_nl (orig err fs))"
  shows "separators_in (emptyFrame_field (options st)) (fst (prepareStackTrace orig st e frames))
           = length rs"
proof -
  obtain combined st1 where r: "processStackTrace st e frames False = (combined, st1)"
    by (cases "processStackTrace st e frames False")
  obtain seps combined' where s: "strip_separators (length combined) combined [] = (seps, combined')"
    by (cases "strip_separators (length combined) combined []")
  have o: "options st1 = options st" using pST_frame [of st e frames False] r by simp
  have "length seps = count_list combined None"
    using strip_separators_length [of "length combined" combined "[]"] s by simp
  also have "\<dots> = length rs" using flatten_top [OF e u p ok ne, of frames] r by simp
  finally have l: "length seps = length rs" .
  have "fst (prepareStackTrace orig st e frames) =
          join_nl (insert_separators (emptyFrame_field (options st)) seps
                     (split_nl (orig e combined')))"
    by (simp add: prepareStackTrace_def r s o)
  then show ?thesis
    using separators_in_rendered [OF nl, of "orig e combined'" seps] tok l by simp
qed

lemma render_count:
  assumes ok: "chain_ok st rs"
    and nl: "newline \<notin> set (emptyFrame_field (options st))"
    and tok: "\<forall>err fs. emptyFrame_field (options st) \<notin> set (split_nl (orig err fs))"
  shows "separators_in (emptyFrame_field (options st)) (fst (raise_and_render orig frames st))
           = length rs"
proof -
  let ?st1 = "snd (new_Error frames st)"
  let ?e = "fst (new_Error frames st)"
  have e: "?e < length (heap ?st1)" by (simp add: new_Error_def)
  have u: "cached_trace_prop (heap ?st1 ! ?e) = None" by (simp add: new_Error_def)
  have p: "parent_of (heap ?st1) ?e = None" by (simp add: new_Error_def parent_of_def)
  have ok1: "chain_ok ?st1 rs" using ok by (rule chain_ok_new_Error)
  have "\<forall>x\<in>set rs. x < length (heap st)" using ok by (simp add: chain_ok_def)
  then have ne: "?e \<notin> set rs" by (auto simp: new_Error_def)
  have o: "options ?st1 = options st" by (simp add: new_Error_def)
  show ?thesis
    unfolding raise_and_render_def
    using prepare_count [OF e u p ok1 ne, of orig frames] nl tok by (simp add: o)
qed

lemma run_chain_options: "options (run_chain stacks st) = options st"
  by (induction stacks arbitrary: st) (simp_all add: wrap_capture_options)

lemma length_kept:
  "length (kept L c) = (if 0 < L then min (nat (max 1 (L - 1))) (length c) else length c)"
  by (simp add: kept_def min.commute)

lemma min_step: "min M (min M (Suc l) + n) = min (M::nat) (Suc (l + n))"
  by arith

lemma run_chain_ok:
  assumes "chain_ok st rs" and "\<forall>s\<in>set stacks. \<exists>f\<in>set s. external f"
    and "0 < asyncTraceLimit_field (options st) \<longrightarrow>
           length rs \<le> nat (max 1 (asyncTraceLimit_field (options st) - 1))"
  shows "\<exists>rs'. chain_ok (run_chain stacks st) rs' \<and>
           length rs' = (if 0 < asyncTraceLimit_field (options st)
                         then min (nat (max 1 (asyncTraceLimit_field (options st) - 1)))
                                (length rs + length stacks)
                         else length rs + length stacks)"
  using assms
proof (induction stacks arbitrary: st rs)
  case Nil
  then show ?case by (intro exI [of _ rs]) auto
next
  case (Cons s stacks)
  let ?L = "asyncTraceLimit_field (options st)"
  let ?st' = "(snd (wrap_capture s st))\<lparr>currentTraceError := Some (fst (wrap_capture s st))\<rparr>"
  let ?rs' = "kept ?L (length (heap st) # rs)"
  have ok': "chain_ok ?st' ?rs'" using Cons.prems by (intro capture_chain) auto
  have o: "options ?st' = options st" by (simp add: wrap_capture_options)
  have b: "0 < asyncTraceLimit_field (options ?st') \<longrightarrow>
           length ?rs' \<le> nat (max 1 (asyncTraceLimit_field (options ?st') - 1))"
    by (simp add: o length_kept)
  from Cons.IH [OF ok' _ b] Cons.prems(2) obtain rs'' where
    r: "chain_ok (run_chain stacks ?st') rs''"
    and l: "length rs'' = (if 0 < ?L then min (nat (max 1 (?L - 1))) (length ?rs' + length stacks)
                           else length ?rs' + length stacks)"
    unfolding o by auto
  show ?case
    using r l by (intro exI [of _ rs'']) (simp add: length_kept min_step)
qed

lemma chain_count:
  assumes cur: "currentTraceError st = None"
    and ext: "\<forall>s\<in>set stacks. \<exists>f\<in>set s. external f"
    and nl: "newline \<notin> set (emptyFrame_field (options st))"
    and tok: "\<forall>err fs. emptyFrame_field (options st) \<notin> set (split_nl (orig err fs))"
  shows "separators_in (emptyFrame_field (options st))
           (fst (raise_and_render orig frames (run_chain stacks st)))
         = (if 0 < asyncTraceLimit_field (options st)
            then min (nat (max 1 (asyncTraceLimit_field (options st) - 1))) (length stacks)
            else length stacks)"
proof -
  have ok: "chain_ok st []" using cur by (simp add: chain_ok_def)
  from run_chain_ok [OF ok ext] obtain rs' where
    r: "chain_ok (run_chain stacks st) rs'"
    and l: "length rs' = (if 0 < asyncTraceLimit_field (options st)
            then min (nat (max 1 (asyncTraceLimit_field (options st) - 1))) (length stacks)
            else length stacks)"
    by auto
  show ?thesis
    using render_count [OF r, of orig frames] nl tok l by (simp add: run_chain_options)
qed

section \<open>The chain as the event loop runs it\<close>

lemma wrap_args_first:
  "wrap_args t [0] [Func cb, a] = [Func (Shim t 0 cb), a]"
  by (simp add: wrap_args_def)

lemma chain_app_schedules:
  assumes "n < length stacks"
  shows "chain_app wcs frames stacks n this args (st, q) =
           (Inr Undefined,
            (snd (wrap_capture (stacks ! n) st),
             q @ [Func (Shim (length (heap st)) 0 (Plain (Suc n)))]))"
proof -
  obtain t st1 where c: "wrap_capture (stacks ! n) st = (t, st1)"
    by (cases "wrap_capture (stacks ! n) st")
  then have t: "t = length (heap st)" using wrap_capture_fst [of "stacks ! n" st] by simp
  have "setTimeout wcs (stacks ! n) Undefined [Func (Plain (Suc n)), Num (Fin 0)] (st, q) =
          (Inr (Obj 0, Some (map wcs (filter (\<lambda>frame. fileName frame \<noteq> this_filename)
                                       (stack_of (heap st1) t)))),
           (st1, q @ [Func (Shim t 0 (Plain (Suc n)))]))"
    unfolding setTimeout_def wrap_def
    by (simp add: c wrap_args_first setTimeout_native_def)
  then show ?thesis using assms by (simp add: chain_app_def c t)
qed

lemma chain_app_raises:
  assumes "\<not> n < length stacks"
  shows "chain_app wcs frames stacks n this args (st, q) =
           (Inl (Thrown (Err (length (heap st)))), (snd (new_Error frames st), q))"
  using assms by (simp add: chain_app_def new_Error_def)

lemma prepare_length:
  "length (heap (snd (prepareStackTrace orig st e s))) = length (heap st)"
proof -
  obtain combined st1 where r: "processStackTrace st e s False = (combined, st1)"
    by (cases "processStackTrace st e s False")
  obtain seps c' where sp: "strip_separators (length combined) combined [] = (seps, c')"
    by (cases "strip_separators (length combined) combined []")
  have "length (heap st1) = length (heap st)" using pST_frame [of st e s False] r by simp
  then show ?thesis by (simp add: prepareStackTrace_def r sp set_cached_def)
qed

lemma shim_of_raising_callback:
  assumes cb: "apply_fn orig env cb this args ((fst s)\<lparr>currentTraceError := Some t\<rparr>, snd s)
                 = (Inl (Thrown (Err e)), (st', w'))"
    and e: "e < length (heap st')" and m: "stack_memo (heap st' ! e) = None"
  shows "\<exists>final. apply_fn orig env (Shim t pos cb) this args s = (Inl (Thrown (Err e)), (final, w'))
           \<and> e < length (heap final)
           \<and> stack_memo (heap final ! e)
               = Some (Text (fst (prepareStackTrace orig st' e (captured (heap st' ! e)))))"
proof -
  obtain rendered st'' where p: "prepareStackTrace orig st' e (captured (heap st' ! e)) = (rendered, st'')"
    by (cases "prepareStackTrace orig st' e (captured (heap st' ! e))")
  have l: "length (heap st'') = length (heap st')"
    using prepare_length [of orig st' e "captured (heap st' ! e)"] p by simp
  have r: "read_stack orig (Err e) st' =
             (Inr (), st''\<lparr>heap := (heap st'')[e := (heap st'' ! e)\<lparr>stack_memo := Some (Text rendered)\<rparr>]\<rparr>)"
    using e m by (simp add: read_stack_def p)
  let ?final = "st''\<lparr>heap := (heap st'')[e := (heap st'' ! e)\<lparr>stack_memo := Some (Text rendered)\<rparr>],
                   currentTraceError := None\<rparr>"
  have "apply_fn orig env (Shim t pos cb) this args s = (Inl (Thrown (Err e)), (?final, w'))"
    by (simp add: cb r)
  moreover have "e < length (heap ?final)" using e l by simp
  moreover have "stack_memo (heap ?final ! e) = Some (Text rendered)" using e l by simp
  ultimately show ?thesis using p by (intro exI [of _ ?final]) simp
qed

lemma drain_chain:
  "length stacks - n = k \<Longrightarrow> n \<le> length stacks \<Longrightarrow>
   \<exists>final. drain (Suc k) orig (chain_app wcs frames stacks) (st, [Func (Shim t 0 (Plain n))])
             = (Inl (Thrown (Err (length (heap (run_chain (drop n stacks)
                                              (st\<lparr>currentTraceError := Some t\<rparr>)))))),
                (final, []))
      \<and> length (heap (run_chain (drop n stacks) (st\<lparr>currentTraceError := Some t\<rparr>)))
           < length (heap final)
      \<and> stack_memo (heap final !
           (length (heap (run_chain (drop n stacks) (st\<lparr>currentTraceError := Some t\<rparr>)))))
         = Some (Text (fst (raise_and_render orig frames
                  (run_chain (drop n stacks) (st\<lparr>currentTraceError := Some t\<rparr>)))))"
proof (induction k arbitrary: n st t)
  case 0
  let ?in = "st\<lparr>currentTraceError := Some t\<rparr>"
  let ?e = "length (heap ?in)"
  let ?st' = "snd (new_Error frames ?in)"
  from 0 have n: "\<not> n < length stacks" and d: "drop n stacks = []" by simp_all
  have cb: "apply_fn orig (chain_app wcs frames stacks) (Plain n) Undefined []
              ((fst (st, []))\<lparr>currentTraceError := Some t\<rparr>, snd (st, []))
            = (Inl (Thrown (Err ?e)), (?st', []))"
    using chain_app_raises [OF n, of wcs frames Undefined "[]" ?in "[]"] by simp
  have e: "?e < length (heap ?st')" by (simp add: new_Error_def)
  have m: "stack_memo (heap ?st' ! ?e) = None" by (simp add: new_Error_def)
  have c: "captured (heap ?st' ! ?e) = frames" by (simp add: new_Error_def)
  from shim_of_raising_callback [OF cb e m, of 0] obtain final where
    f: "apply_fn orig (chain_app wcs frames stacks) (Shim t 0 (Plain n)) Undefined [] (st, [])
          = (Inl (Thrown (Err ?e)), (final, []))"
    and fl: "?e < length (heap final)"
    and fm: "stack_memo (heap final ! ?e) = Some (Text (fst (prepareStackTrace orig ?st' ?e frames)))"
    unfolding c by blast
  have rr: "raise_and_render orig frames ?in = prepareStackTrace orig ?st' ?e frames"
    by (simp add: raise_and_render_def new_Error_def)
  show ?case
    using f fl fm by (intro exI [of _ final]) (simp add: d rr)
next
  case (Suc k)
  let ?in = "st\<lparr>currentTraceError := Some t\<rparr>"
  let ?t' = "length (heap ?in)"
  let ?w = "snd (wrap_capture (stacks ! n) ?in)"
  from Suc.prems have n: "n < length stacks" by simp
  then have d: "drop n stacks = stacks ! n # drop (Suc n) stacks" by (simp add: Cons_nth_drop_Suc)
  have cb: "apply_fn orig (chain_app wcs frames stacks) (Plain n) Undefined []
              ((fst (st, []))\<lparr>currentTraceError := Some t\<rparr>, snd (st, []))
            = (Inr Undefined, (?w, [Func (Shim ?t' 0 (Plain (Suc n)))]))"
    using chain_app_schedules [OF n, of wcs frames Undefined "[]" ?in "[]"] by simp
  have sh: "apply_fn orig (chain_app wcs frames stacks) (Shim t 0 (Plain n)) Undefined [] (st, [])
            = (Inr Undefined, (?w\<lparr>currentTraceError := None\<rparr>, [Func (Shim ?t' 0 (Plain (Suc n)))]))"
    using shim_returns [OF cb, of 0] by simp
  have step: "drain (Suc (Suc k)) orig (chain_app wcs frames stacks) (st, [Func (Shim t 0 (Plain n))])
            = drain (Suc k) orig (chain_app wcs frames stacks)
                (?w\<lparr>currentTraceError := None\<rparr>, [Func (Shim ?t' 0 (Plain (Suc n)))])"
    by (simp add: sh del: apply_fn.simps)
  have rc: "run_chain (drop n stacks) ?in
            = run_chain (drop (Suc n) stacks)
                ((?w\<lparr>currentTraceError := None\<rparr>)\<lparr>currentTraceError := Some ?t'\<rparr>)"
    by (simp add: d wrap_capture_fst)
  have k: "length stacks - Suc n = k" and le: "Suc n \<le> length stacks" using Suc.prems by simp_all
  from Suc.IH [OF k le, of "?w\<lparr>currentTraceError := None\<rparr>" ?t']
  show ?case unfolding step rc .
qed

lemma run_program_chain:
  assumes "stacks \<noteq> []"
  shows "\<exists>final. run_program orig wcs frames stacks st
             = (Inl (Thrown (Err (length (heap (run_chain stacks st))))), (final, []))
      \<and> length (heap (run_chain stacks st)) < length (heap final)
      \<and> stack_memo (heap final ! (length (heap (run_chain stacks st))))
         = Some (Text (fst (raise_and_render orig frames (run_chain stacks st))))"
proof -
  let ?w = "snd (wrap_capture (stacks ! 0) st)"
  let ?t = "length (heap st)"
  from assms have n: "0 < length stacks" by (cases stacks) simp_all
  from assms have d: "stacks = stacks ! 0 # drop (Suc 0) stacks"
    by (cases stacks) simp_all
  have a: "chain_app wcs frames stacks 0 Undefined [] (st, [])
             = (Inr Undefined, (?w, [Func (Shim ?t 0 (Plain (Suc 0)))]))"
    using chain_app_schedules [OF n, of wcs frames Undefined "[]" st "[]"] by simp
  have f: "length stacks = Suc (length stacks - Suc 0)" using assms by (cases stacks) simp_all
  have p: "run_program orig wcs frames stacks st
             = drain (Suc (length stacks - Suc 0)) orig (chain_app wcs frames stacks)
                 (?w, [Func (Shim ?t 0 (Plain (Suc 0)))])"
    unfolding run_program_def a using f by simp
  have rc: "run_chain stacks st = run_chain (drop (Suc 0) stacks) (?w\<lparr>currentTraceError := Some ?t\<rparr>)"
    by (subst d) (simp add: wrap_capture_fst)
  have le: "Suc 0 \<le> length stacks" using assms by (cases stacks) simp_all
  from drain_chain [OF refl le, of orig wcs frames ?w ?t]
  show ?thesis unfolding p rc .
qed

section \<open>Separators of a chain\<close>

lemma sample_token_newline: "newline \<notin> set (emptyFrame_field (options (limit_State L)))"
  by (simp add: limit_State_def initial_State_def new_Options_def newline_def)

lemma sample_lines:
  "emptyFrame_field (options (limit_State L)) \<notin> set (split_nl (orig_sample err fs))"
proof -
  let ?ls = "''Error'' # map (\<lambda>f. ''    at'') fs"
  have "\<forall>l\<in>set ?ls. newline \<notin> set l" by (auto simp: newline_def)
  then have "split_nl (join_nl ?ls) = ?ls" by (intro split_join) simp_all
  then show ?thesis
    by (auto simp: orig_sample_def limit_State_def initial_State_def new_Options_def)
qed

lemma sample_external: "external user_frame"
  by (simp add: external_def user_frame_def this_filename_def)

text \<open>
  C1, as the code has it, for a chain of \<open>N\<close> nested scheduling calls made under these
  conditions:

    \<^item> the limit is \<open>L\<close>, at least 2;

    \<^item> the chain starts at the top level, where no trace error is current;

    \<^item> the first call is made by the top level and each later one by the callback of the
      call before, and that is all these callbacks do with the module: none of them makes
      another wrapped call, runs a shim synchronously or reads the \<open>stack\<close> of an error;

    \<^item> every call has a frame outside the module among its call sites;

    \<^item> the separator token has no line break and is not itself a line that the platform's
      renderer prints.

  An error is raised in the innermost callback and its \<open>stack\<close> is read, for the first
  time. The trace has exactly \<open>N\<close> separator lines if \<open>N < L\<close> and exactly \<open>L - 1\<close> if
  \<open>N \<ge> L\<close>: the limit counts the segments of the trace, the one of the error included.
  Run as a program, with the wrapped scheduler, the shims and the event loop, the chain ends
  with that error thrown out of the innermost shim, and this trace is the text of its
  \<open>stack\<close>.
\<close>

theorem chain_separators_limited:
  assumes "currentTraceError st = None"
    and "2 \<le> asyncTraceLimit_field (options st)"
    and "\<forall>s\<in>set stacks. \<exists>f\<in>set s. external f"
    and "newline \<notin> set (emptyFrame_field (options st))"
    and "\<forall>err fs. emptyFrame_field (options st) \<notin> set (split_nl (orig err fs))"
  shows "separators_in (emptyFrame_field (options st))
           (fst (raise_and_render orig frames (run_chain stacks st)))
         = (if int (length stacks) < asyncTraceLimit_field (options st)
            then length stacks
            else nat (asyncTraceLimit_field (options st) - 1))
      \<and> (stacks \<noteq> [] \<longrightarrow>
           (\<exists>final. run_program orig wcs frames stacks st
                = (Inl (Thrown (Err (length (heap (run_chain stacks st))))), (final, []))
              \<and> stack_memo (heap final ! (length (heap (run_chain stacks st))))
                  = Some (Text (fst (raise_and_render orig frames (run_chain stacks st))))))"
proof -
  have "min (nat (max 1 (asyncTraceLimit_field (options st) - 1))) (length stacks)
        = (if int (length stacks) < asyncTraceLimit_field (options st)
            then length stacks
            else nat (asyncTraceLimit_field (options st) - 1))"
    using assms(2) by auto
  then have "separators_in (emptyFrame_field (options st))
           (fst (raise_and_render orig frames (run_chain stacks st)))
         = (if int (length stacks) < asyncTraceLimit_field (options st)
            then length stacks
            else nat (asyncTraceLimit_field (options st) - 1))"
    using chain_count [OF assms(1) assms(3) assms(4) assms(5), of frames] assms(2) by simp
  moreover have "stacks \<noteq> [] \<Longrightarrow>
           (\<exists>final. run_program orig wcs frames stacks st
                = (Inl (Thrown (Err (length (heap (run_chain stacks st))))), (final, []))
              \<and> stack_memo (heap final ! (length (heap (run_chain stacks st))))
                  = Some (Text (fst (raise_and_render orig frames (run_chain stacks st)))))"
    using run_program_chain [of stacks orig wcs frames st] by blast
  ultimately show ?thesis by blast
qed

theorem chain_separators_limited_witness:
  "separators_in (emptyFrame_field (options (limit_State 2)))
     (fst (raise_and_render orig_sample [user_frame]
        (run_chain [[user_frame], [user_frame], [user_frame]] (limit_State 2)))) = 1
   \<and> separators_in (emptyFrame_field (options (limit_State 5)))
     (fst (raise_and_render orig_sample [user_frame]
        (run_chain [[user_frame], [user_frame], [user_frame]] (limit_State 5)))) = 3"
proof -
  have c: "currentTraceError (limit_State L) = None" for L
    by (simp add: limit_State_def initial_State_def)
  have l: "asyncTraceLimit_field (options (limit_State L)) = L" for L
    by (simp add: limit_State_def)
  have e: "\<forall>s\<in>set [[user_frame], [user_frame], [user_frame]]. \<exists>f\<in>set s. external f"
    by (simp add: sample_external)
  have t: "\<forall>err fs. emptyFrame_field (options (limit_State L)) \<notin> set (split_nl (orig_sample err fs))"
    for L using sample_lines by blast
  have 1: "2 \<le> asyncTraceLimit_field (options (limit_State 2))" by (simp add: l)
  have 2: "2 \<le> asyncTraceLimit_field (options (limit_State 5))" by (simp add: l)
  from chain_separators_limited [OF c 1 e sample_token_newline t, where frames = "[user_frame]"]
       chain_separators_limited [OF c 2 e sample_token_newline t, where frames = "[user_frame]"]
  show ?thesis by (simp add: l)
qed

text \<open>With the limit 1 a trace error never has a parent, and the trace has one separator.\<close>

lemma chain_limit_one:
  assumes "currentTraceError st = None"
    and "asyncTraceLimit_field (options st) = 1"
    and "\<forall>s\<in>set stacks. \<exists>f\<in>set s. external f"
    and "newline \<notin> set (emptyFrame_field (options st))"
    and "\<forall>err fs. emptyFrame_field (options st) \<notin> set (split_nl (orig err fs))"
  shows "separators_in (emptyFrame_field (options st))
           (fst (raise_and_render orig frames (run_chain stacks st)))
         = min 1 (length stacks)"
  using chain_count [OF assms(1) assms(3) assms(4) assms(5), of frames] assms(2) by simp

text \<open>
  C1 as stated fails where \<open>N = L\<close>: with the limit 2 and a chain of 2 the trace has one
  separator, not two.
\<close>

theorem chain_at_limit_has_one_less:
  "separators_in (emptyFrame_field (options (limit_State 2)))
     (fst (raise_and_render orig_sample [user_frame]
        (run_chain [[user_frame], [user_frame]] (limit_State 2)))) = 1"
  by code_simp

lemma wrap_capture_zero:
  assumes "asyncTraceLimit_field (options st) = 0"
  shows "\<exists>ob. parent_prop ob = Some (currentTraceError st)
           \<and> heap (snd (wrap_capture stack st)) = heap st @ [ob]"
  using wrap_capture_heap [of st stack] assms by auto

lemma run_chain_zero_links:
  assumes "asyncTraceLimit_field (options st) = 0"
  shows "length (heap (run_chain stacks st)) = length (heap st) + length stacks
     \<and> (\<forall>k<length stacks. parent_of (heap (run_chain stacks st)) (length (heap st) + k)
            = (if k = 0 then currentTraceError st else Some (length (heap st) + k - 1)))
     \<and> (\<forall>x<length (heap st). heap (run_chain stacks st) ! x = heap st ! x)"
  using assms
proof (induction stacks arbitrary: st)
  case Nil
  then show ?case by simp
next
  case (Cons s stacks)
  let ?st' = "(snd (wrap_capture s st))\<lparr>currentTraceError := Some (fst (wrap_capture s st))\<rparr>"
  let ?H = "heap (run_chain stacks ?st')"
  let ?n = "length (heap st)"
  from wrap_capture_zero [OF Cons.prems, of s] obtain ob where
    ob: "parent_prop ob = Some (currentTraceError st)"
    and h: "heap (snd (wrap_capture s st)) = heap st @ [ob]" by blast
  have o: "asyncTraceLimit_field (options ?st') = 0"
    using Cons.prems by (simp add: wrap_capture_options)
  have h': "heap ?st' = heap st @ [ob]" using h by simp
  have c': "currentTraceError ?st' = Some ?n" by (simp add: wrap_capture_fst)
  note IH = Cons.IH [OF o, unfolded h' c']
  from IH have len: "length ?H = Suc ?n + length stacks" by simp
  from IH have par: "\<And>k. k < length stacks \<Longrightarrow>
      parent_of ?H (Suc ?n + k) = (if k = 0 then Some ?n else Some (?n + k))"
    by simp
  from IH have old: "\<And>x. x < Suc ?n \<Longrightarrow> ?H ! x = (heap st @ [ob]) ! x" by simp
  have r: "run_chain (s # stacks) st = run_chain stacks ?st'" by simp
  have p0: "parent_of ?H ?n = currentTraceError st"
    using old [of ?n] len ob by (simp add: parent_of_def split: option.splits)
  have pk: "parent_of ?H (?n + k) = (if k = 0 then currentTraceError st else Some (?n + k - 1))"
    if "k < length (s # stacks)" for k
  proof (cases k)
    case 0
    then show ?thesis using p0 by simp
  next
    case (Suc j)
    with that have "j < length stacks" by simp
    from par [OF this] Suc show ?thesis by simp
  qed
  have ox: "?H ! x = heap st ! x" if "x < ?n" for x
    using old [of x] that by (simp add: nth_append)
  show ?case unfolding r using len pk ox by simp
qed

text \<open>
  C2, as the code has it. With the limit 0 the guard \<open>asyncTraceLimit > 0\<close> skips the
  truncation, and the parent link is set before the guard. The chain of \<open>N\<close> nested
  scheduling calls is made under the conditions of C1, but for the limit, which is 0:

    \<^item> the chain starts at the top level, where no trace error is current;

    \<^item> the first call is made by the top level and each later one by the callback of the
      call before, and that is all these callbacks do with the module: none of them makes
      another wrapped call, runs a shim synchronously or reads the \<open>stack\<close> of an error;

    \<^item> every call has a frame outside the module among its call sites;

    \<^item> the separator token has no line break and is not itself a line that the platform's
      renderer prints.

  Then every trace error of the chain keeps its parent link: the first has no parent, and
  each later one has the one before as its parent. An error is raised in the innermost
  callback and its \<open>stack\<close> is read, for the first time: the trace has exactly \<open>N\<close>
  separator lines. Run as a program, the chain ends with that error thrown out of the
  innermost shim, and this trace is the text of its \<open>stack\<close>.
\<close>

theorem chain_unlimited_at_zero:
  assumes "currentTraceError st = None"
    and "asyncTraceLimit_field (options st) = 0"
    and "\<forall>s\<in>set stacks. \<exists>f\<in>set s. external f"
    and "newline \<notin> set (emptyFrame_field (options st))"
    and "\<forall>err fs. emptyFrame_field (options st) \<notin> set (split_nl (orig err fs))"
  shows "(\<forall>k<length stacks.
            parent_of (heap (run_chain stacks st)) (length (heap st) + k)
            = (if k = 0 then None else Some (length (heap st) + k - 1)))
      \<and> separators_in (emptyFrame_field (options st))
           (fst (raise_and_render orig frames (run_chain stacks st)))
         = length stacks
      \<and> (stacks \<noteq> [] \<longrightarrow>
           (\<exists>final. run_program orig wcs frames stacks st
                = (Inl (Thrown (Err (length (heap (run_chain stacks st))))), (final, []))
              \<and> stack_memo (heap final ! (length (heap (run_chain stacks st))))
                  = Some (Text (fst (raise_and_render orig frames (run_chain stacks st))))))"
proof -
  have "separators_in (emptyFrame_field (options st))
           (fst (raise_and_render orig frames (run_chain stacks st)))
         = length stacks"
    using chain_count [OF assms(1) assms(3) assms(4) assms(5), of frames] assms(2) by simp
  moreover have "stacks \<noteq> [] \<Longrightarrow>
           (\<exists>final. run_program orig wcs frames stacks st
                = (Inl (Thrown (Err (length (heap (run_chain stacks st))))), (final, []))
              \<and> stack_memo (heap final ! (length (heap (run_chain stacks st))))
                  = Some (Text (fst (raise_and_render orig frames (run_chain stacks st)))))"
    using run_program_chain [of stacks orig wcs frames st] by blast
  moreover have "\<forall>k<length stacks.
            parent_of (heap (run_chain stacks st)) (length (heap st) + k)
            = (if k = 0 then None else Some (length (heap st) + k - 1))"
    using run_chain_zero_links [OF assms(2), of stacks] assms(1) by simp
  ultimately show ?thesis by blast
qed

theorem chain_unlimited_at_zero_witness:
  "parent_of (heap (run_chain [[user_frame], [user_frame], [user_frame]] (limit_State 0))) 2
     = Some 1
   \<and> separators_in (emptyFrame_field (options (limit_State 0)))
     (fst (raise_and_render orig_sample [user_frame]
        (run_chain [[user_frame], [user_frame], [user_frame]] (limit_State 0)))) = 3"
proof -
  have h: "length (heap (limit_State 0)) = 0"
    by (simp add: limit_State_def initial_State_def)
  have c: "currentTraceError (limit_State 0) = None"
    by (simp add: limit_State_def initial_State_def)
  have l: "asyncTraceLimit_field (options (limit_State 0)) = 0"
    by (simp add: limit_State_def)
  have e: "\<forall>s\<in>set [[user_frame], [user_frame], [user_frame]]. \<exists>f\<in>set s. external f"
    by (simp add: sample_external)
  have t: "\<forall>err fs. emptyFrame_field (options (limit_State 0)) \<notin> set (split_nl (orig_sample err fs))"
    using sample_lines by blast
  note w = chain_unlimited_at_zero [OF c l e sample_token_newline t, where frames = "[user_frame]"]
  from w [THEN conjunct1, rule_format, of 2] have "parent_of
      (heap (run_chain [[user_frame], [user_frame], [user_frame]] (limit_State 0))) 2 = Some 1"
    by (simp add: h numeral_2_eq_2 del: run_chain.simps)
  with w show ?thesis by (simp del: run_chain.simps)
qed

text \<open>
  C2 as stated fails: with the limit 0 and a chain of 2, the second trace error has the
  first as its parent and the trace has two separators.
\<close>

theorem limit_zero_links_and_separates:
  "parent_of (heap (run_chain [[user_frame], [user_frame]] (limit_State 0))) 1 = Some 0
   \<and> separators_in (emptyFrame_field (options (limit_State 0)))
       (fst (raise_and_render orig_sample [user_frame]
          (run_chain [[user_frame], [user_frame]] (limit_State 0)))) = 2"
  by code_simp

subsection \<open>Chains outside these conditions\<close>

text \<open>
  The counts above are those of a chain whose callbacks do nothing with the module but make
  the next scheduling call. Four runs outside these conditions, each with another count.

  Every callback reads the \<open>stack\<close> of an error before it schedules the next one (limit 3,
  chain of 3): the reading flattens the current trace error with its ancestors and keeps
  the result in its cache, and the truncation, which deletes \<open>__parent__\<close> later, does not
  touch the cache. The trace has 3 separators, not 2.
\<close>

lemma stack_read_keeps_cut_ancestors:
  "separators_in (emptyFrame_field (options (limit_State 3)))
     (fst (raise_and_render orig_sample [user_frame]
       (run_chain [[user_frame]]
         (snd (raise_and_render orig_sample [user_frame]
           (run_chain [[user_frame]]
             (snd (raise_and_render orig_sample [user_frame]
               (run_chain [[user_frame]] (limit_State 3)))))))))) = 3"
  by code_simp

text \<open>
  The innermost callback makes one other wrapped call before the error is raised (limit 3,
  chain of 2): the truncation for the new trace error walks to the current one and deletes
  its parent link. The trace has 1 separator, not 2.
\<close>

lemma other_call_cuts_chain:
  "separators_in (emptyFrame_field (options (limit_State 3)))
     (fst (raise_and_render orig_sample [user_frame]
        (snd (wrap_capture [user_frame]
           (run_chain [[user_frame], [user_frame]] (limit_State 3)))))) = 1"
  by code_simp

text \<open>
  The first callback runs a shim synchronously, as an emitted listener is run, before it
  schedules the second (limit 0, chain of 2): the shim leaves the slot empty, and the second
  trace error has no parent. The trace has 1 separator, not 2.
\<close>

lemma synchronous_shim_empties_slot:
  "separators_in (emptyFrame_field (options (limit_State 0)))
     (fst (raise_and_render orig_sample [user_frame]
        (run_chain [[user_frame]]
          (fst (snd (apply_fn orig_sample (env_const Undefined) (Shim 0 0 (Plain 7)) Undefined []
             (run_chain [[user_frame]] (limit_State 0), ()))))))) = 1"
  by code_simp

text \<open>
  The scheduling calls have no frame outside the module among their call sites, as with
  \<open>Error.stackTraceLimit = 1\<close> (limit 0, chain of 2): a trace error without frames of its
  own adds no segment. The trace has no separator.
\<close>

lemma module_frames_give_no_segment:
  "separators_in (emptyFrame_field (options (limit_State 0)))
     (fst (raise_and_render orig_sample [user_frame]
        (run_chain [[module_frame], [module_frame]] (limit_State 0)))) = 0"
  by code_simp

section \<open>Rendering an error twice\<close>

lemma strip_Suc_frame:
  "\<not> (i < length c \<and> c ! i = None) \<Longrightarrow>
   strip_separators (Suc i) c seps = strip_separators i c seps"
  by (simp only: strip_separators.simps if_not_P if_False)

lemma strip_separators_id:
  "None \<notin> set c \<Longrightarrow> strip_separators i c seps = (seps, c)"
proof (induction i arbitrary: seps)
  case 0
  then show ?case by simp
next
  case (Suc i)
  then have "i < length c \<Longrightarrow> c ! i \<noteq> None" by (metis nth_mem)
  then have "\<not> (i < length c \<and> c ! i = None)" by blast
  then have "strip_separators (Suc i) c seps = strip_separators i c seps"
    by (rule strip_Suc_frame)
  with Suc show ?case by simp
qed

lemma strip_separators_no_marker:
  "None \<notin> set (drop i c) \<Longrightarrow> None \<notin> set (snd (strip_separators i c seps))"
proof (induction i arbitrary: c seps)
  case 0
  then show ?case by simp
next
  case (Suc i)
  show ?case
  proof (cases "i < length c \<and> c ! i = None")
    case True
    then have "drop i (take i c @ drop (Suc i) c) = drop (Suc i) c" by simp
    with Suc.prems have "None \<notin> set (drop i (take i c @ drop (Suc i) c))" by simp
    from Suc.IH [OF this] True show ?thesis by simp
  next
    case False
    have "None \<notin> set (drop i c)"
    proof (cases "i < length c")
      case l: True
      then have "drop i c = c ! i # drop (Suc i) c" by (simp add: Cons_nth_drop_Suc)
      with False l Suc.prems show ?thesis by auto
    next
      case l: False
      then show ?thesis by simp
    qed
    from Suc.IH [OF this] strip_Suc_frame [OF False] show ?thesis by simp
  qed
qed

text \<open>
  Whatever the error and the state: once an error has been rendered, its cached trace holds
  no marker, and a second call of the hook for it inserts no separator.
\<close>

lemma second_render_no_separators:
  assumes e: "e < length (heap st)"
    and tok: "\<And>c. emptyFrame_field (options st) \<notin> set (split_nl (orig e c))"
  shows "separators_in (emptyFrame_field (options st))
           (fst (prepareStackTrace orig (snd (prepareStackTrace orig st e s)) e s')) = 0"
proof -
  obtain combined st1 where r: "processStackTrace st e s False = (combined, st1)"
    by (cases "processStackTrace st e s False")
  obtain seps c' where sp: "strip_separators (length combined) combined [] = (seps, c')"
    by (cases "strip_separators (length combined) combined []")
  let ?st2 = "st1\<lparr>heap := set_cached (heap st1) e c'\<rparr>"
  have f: "length (heap st1) = length (heap st)" "options st1 = options st"
    using pST_frame [of st e s False] r by simp_all
  have s2: "snd (prepareStackTrace orig st e s) = ?st2"
    by (simp add: prepareStackTrace_def r sp)
  have nm: "None \<notin> set c'"
    using strip_separators_no_marker [of "length combined" combined "[]"] sp by simp
  have c2: "cached_trace_prop (heap ?st2 ! e) = Some c'" using e f by (simp add: set_cached_def)
  have e2: "e < length (heap ?st2)" using e f by (simp add: set_cached_def)
  have r2: "processStackTrace ?st2 e s' False = (c', ?st2)" using e2 c2 by (rule pST_cached)
  have sp2: "strip_separators (length c') c' [] = ([], c')" using nm by (rule strip_separators_id)
  have "fst (prepareStackTrace orig ?st2 e s') = join_nl (split_nl (orig e c'))"
    by (simp add: prepareStackTrace_def r2 sp2 insert_separators_def)
  moreover have "split_nl (join_nl (split_nl (orig e c'))) = split_nl (orig e c')"
    using split_nl_no_newline split_nl_nonempty by (intro split_join) auto
  ultimately show ?thesis
    using tok [of c'] by (simp add: s2 separators_in_def f count_list_0_iff)
qed

text \<open>Rendering an error leaves every other object that has a cache as it is.\<close>

lemma prepareStackTrace_keeps_cached:
  assumes "x \<noteq> e" and "x < length (heap st)" and "cached_trace_prop (heap st ! x) \<noteq> None"
  shows "heap (snd (prepareStackTrace orig st e s)) ! x = heap st ! x"
proof -
  obtain combined st1 where r: "processStackTrace st e s False = (combined, st1)"
    by (cases "processStackTrace st e s False")
  obtain seps c' where sp: "strip_separators (length combined) combined [] = (seps, c')"
    by (cases "strip_separators (length combined) combined []")
  have "heap st1 ! x = heap st ! x" using pST_keeps_cached [OF assms(2,3), of e s False] r by simp
  then show ?thesis using assms(1) by (simp add: prepareStackTrace_def r sp set_cached_def)
qed

text \<open>
  C4 fails on the code. An error is raised in the callback of one scheduling call and the
  hook is called for it twice. The first trace has the separator; the \<open>splice\<close> of the
  first call has removed the marker from the error's cached array (the cache of the trace
  error 0, its ancestor, is untouched), so the second trace has no separator and the two
  strings differ.
\<close>

theorem second_render_loses_separators:
  "fst first_render =
     ''Error'' @ [newline] @ ''    at'' @ [newline]
       @ ''-------------------------------------------------'' @ [newline] @ ''    at''
   \<and> fst (prepareStackTrace orig_sample (snd first_render) 1 [user_frame]) =
     ''Error'' @ [newline] @ ''    at'' @ [newline] @ ''    at''
   \<and> cached_trace_prop (heap (snd first_render) ! 1) = Some [Some user_frame, Some user_frame]
   \<and> cached_trace_prop (heap (snd first_render) ! 0) = Some [Some user_frame]"
  by code_simp

section \<open>Arguments and callbacks of a wrapped function\<close>

lemma wrap_args_snoc:
  "wrap_args t (ps @ [p]) as =
     (if p < length as
      then (case as ! p of Func callback \<Rightarrow> (wrap_args t ps as)[p := Func (Shim t p callback)]
            | _ \<Rightarrow> wrap_args t ps as)
      else wrap_args t ps as)"
  unfolding wrap_args_def by simp

lemma wrap_args_length: "length (wrap_args t ps as) = length as"
proof (induction ps rule: rev_induct)
  case Nil
  then show ?case by (simp add: wrap_args_def)
next
  case (snoc p ps)
  then show ?case by (simp add: wrap_args_snoc split: jsval.splits)
qed

lemma wrap_args_nth:
  "i < length as \<Longrightarrow>
   wrap_args t ps as ! i =
     (case as ! i of Func cb \<Rightarrow> (if i \<in> set ps then Func (Shim t i cb) else Func cb) | v \<Rightarrow> v)"
proof (induction ps rule: rev_induct)
  case Nil
  then show ?case by (simp add: wrap_args_def split: jsval.splits)
next
  case (snoc p ps)
  show ?case
  proof (cases "p = i")
    case True
    with snoc show ?thesis
      by (simp add: wrap_args_snoc wrap_args_length split: jsval.splits)
  next
    case False
    with snoc show ?thesis
      by (simp add: wrap_args_snoc wrap_args_length split: jsval.splits)
  qed
qed

lemma wrap_result:
  assumes "(if isConstructor
            then construct_native originalFunction
                   (wrap_args (length (heap (fst s))) (positions_list callbackPositions) arguments)
                   (snd (wrap_capture stack (fst s)), snd s)
            else call_native originalFunction this
                   (wrap_args (length (heap (fst s))) (positions_list callbackPositions) arguments)
                   (snd (wrap_capture stack (fst s)), snd s)) = (Inr handle, s2)"
  shows "wrap originalFunction callbackPositions embedStack isConstructor wcs stack this arguments s =
           (Inr (handle,
                 if embedStack \<and> truthy handle
                 then Some (map wcs (filter (\<lambda>frame. fileName frame \<noteq> this_filename)
                              (stack_of (heap (fst s2)) (length (heap (fst s))))))
                 else None), s2)"
proof -
  obtain t st1 where c: "wrap_capture stack (fst s) = (t, st1)" by (cases "wrap_capture stack (fst s)")
  then have t: "t = length (heap (fst s))" using wrap_capture_fst [of stack "fst s"] by simp
  show ?thesis
    using assms unfolding wrap_def c t by (cases isConstructor) (simp_all add: c)
qed

text \<open>
  C9. The arguments handed to the original function are the arguments of the call, each
  unchanged except that a function at a callback position is replaced by its shim; the
  result of the original function is the result of the wrapped one (with the frames
  attached when asked); and a shim called with a \<open>this\<close> value and arguments calls the
  original callback with the same ones, and returns what the callback returns.
\<close>

theorem wrap_passes_arguments_through:
  "length (wrap_args t ps arguments) = length arguments
   \<and> (i < length arguments \<longrightarrow>
        wrap_args t ps arguments ! i =
          (case arguments ! i of
             Func cb \<Rightarrow> (if i \<in> set ps then Func (Shim t i cb) else Func cb)
           | v \<Rightarrow> v))
   \<and> ((if isConstructor
        then construct_native originalFunction
               (wrap_args (length (heap (fst s))) (positions_list callbackPositions) arguments)
               (snd (wrap_capture stack (fst s)), snd s)
        else call_native originalFunction this
               (wrap_args (length (heap (fst s))) (positions_list callbackPositions) arguments)
               (snd (wrap_capture stack (fst s)), snd s)) = (Inr handle, s2) \<longrightarrow>
        wrap originalFunction callbackPositions embedStack isConstructor wcs stack this arguments s =
           (Inr (handle,
                 if embedStack \<and> truthy handle
                 then Some (map wcs (filter (\<lambda>frame. fileName frame \<noteq> this_filename)
                              (stack_of (heap (fst s2)) (length (heap (fst s))))))
                 else None), s2))
   \<and> (apply_fn orig env cb this' args ((fst s0)\<lparr>currentTraceError := Some t\<rparr>, snd s0) = (Inr v, s')
        \<longrightarrow> apply_fn orig env (Shim t i cb) this' args s0 =
              (Inr v, ((fst s')\<lparr>currentTraceError := None\<rparr>, snd s')))"
proof (intro conjI impI)
  show "length (wrap_args t ps arguments) = length arguments" by (rule wrap_args_length)
next
  assume "i < length arguments"
  then show "wrap_args t ps arguments ! i =
          (case arguments ! i of
             Func cb \<Rightarrow> (if i \<in> set ps then Func (Shim t i cb) else Func cb)
           | v \<Rightarrow> v)" by (rule wrap_args_nth)
next
  assume "(if isConstructor
        then construct_native originalFunction
               (wrap_args (length (heap (fst s))) (positions_list callbackPositions) arguments)
               (snd (wrap_capture stack (fst s)), snd s)
        else call_native originalFunction this
               (wrap_args (length (heap (fst s))) (positions_list callbackPositions) arguments)
               (snd (wrap_capture stack (fst s)), snd s)) = (Inr handle, s2)"
  then show "wrap originalFunction callbackPositions embedStack isConstructor wcs stack this arguments s =
           (Inr (handle,
                 if embedStack \<and> truthy handle
                 then Some (map wcs (filter (\<lambda>frame. fileName frame \<noteq> this_filename)
                              (stack_of (heap (fst s2)) (length (heap (fst s))))))
                 else None), s2)" by (rule wrap_result)
next
  assume "apply_fn orig env cb this' args ((fst s0)\<lparr>currentTraceError := Some t\<rparr>, snd s0) = (Inr v, s')"
  then show "apply_fn orig env (Shim t i cb) this' args s0 =
              (Inr v, ((fst s')\<lparr>currentTraceError := None\<rparr>, snd s'))" by (rule shim_returns)
qed

theorem wrap_passes_arguments_through_witness:
  "wrap_args 0 [1] [Str ''foo'', Func (Plain 1)] ! 0 = Str ''foo''
   \<and> wrap_args 0 [1] [Str ''foo'', Func (Plain 1)] ! 1 = Func (Shim 0 1 (Plain 1))
   \<and> fst (wrap addListener_native (One 1) False False id [user_frame] (Obj 0)
             [Str ''foo'', Func (Plain 1)] (initial_State, new_EventEmitter)) = Inr (Obj 0, None)
   \<and> apply_fn orig_sample env_this (Shim 0 1 (Plain 1)) (Obj 7) [Num (Fin 1)] (initial_State, ())
       = (Inr (Obj 7), (initial_State\<lparr>currentTraceError := None\<rparr>, ()))"
proof -
  let ?s = "(initial_State, new_EventEmitter)"
  let ?args = "[Str ''foo'', Func (Plain 1)]"
  let ?s2 = "(snd (wrap_capture [user_frame] initial_State),
              orig_addListener new_EventEmitter ''foo'' (Shim 0 1 (Plain 1)))"
  have h3: "(if False
        then construct_native addListener_native
               (wrap_args (length (heap (fst ?s))) (positions_list (One 1)) ?args)
               (snd (wrap_capture [user_frame] (fst ?s)), snd ?s)
        else call_native addListener_native (Obj 0)
               (wrap_args (length (heap (fst ?s))) (positions_list (One 1)) ?args)
               (snd (wrap_capture [user_frame] (fst ?s)), snd ?s)) = (Inr (Obj 0), ?s2)"
    by (simp add: addListener_native_def wrap_args_one_callback initial_State_def)
  have h4: "apply_fn orig_sample env_this (Plain 1) (Obj 7) [Num (Fin 1)]
              ((fst (initial_State, ()))\<lparr>currentTraceError := Some 0\<rparr>, snd (initial_State, ()))
            = (Inr (Obj 7), (initial_State\<lparr>currentTraceError := Some 0\<rparr>, ()))"
    by (simp add: env_this_def)
  note w = wrap_passes_arguments_through
      [where t = 0 and ps = "[1]" and arguments = ?args and isConstructor = False
         and originalFunction = addListener_native and s = ?s and callbackPositions = "One 1"
         and stack = "[user_frame]" and this = "Obj 0" and handle = "Obj 0" and ?s2.0 = ?s2
         and embedStack = False and wcs = id
         and orig = orig_sample and env = env_this and cb = "Plain 1" and this' = "Obj 7"
         and args = "[Num (Fin 1)]" and ?s0.0 = "(initial_State, ())" and v = "Obj 7"
         and s' = "(initial_State\<lparr>currentTraceError := Some 0\<rparr>, ())"]
  have a: "wrap_args 0 [1] ?args ! 0 = Str ''foo''"
    using w [where i = 0] by simp
  have b: "wrap_args 0 [1] ?args ! 1 = Func (Shim 0 1 (Plain 1))"
    using w [where i = 1] by simp
  have c: "wrap addListener_native (One 1) False False id [user_frame] (Obj 0) ?args ?s
             = (Inr (Obj 0, None), ?s2)"
    using w [where i = 1] h3 by simp
  have d: "apply_fn orig_sample env_this (Shim 0 1 (Plain 1)) (Obj 7) [Num (Fin 1)] (initial_State, ())
       = (Inr (Obj 7), (initial_State\<lparr>currentTraceError := None\<rparr>, ()))"
    using w [where i = 1] h4 by simp
  from a b c d show ?thesis by simp
qed

end
